theory Spec2Isabelle
  imports Complex_Main "HOL-Library.Monad_Syntax"
begin

section \<open>Values of type double\<close>

text \<open>
  A C++ \<^verbatim>\<open>double\<close> is a finite number, one of the two infinities or a NaN. The
  model keeps these four kinds apart, since the program divides without any check and a division by
  zero yields an infinity or a NaN, which then spreads through the arithmetic that
  follows. A finite value is a real number, and every operation rounds its exact result
  with \<open>rnd\<close>: to the nearest number of the binary64 format (53 significant bits, the
  subnormal numbers included, whose spacing is \<open>2 powi (- 1074)\<close>), to the one with the
  even mantissa when two are equally near, and to an infinity when the rounded value
  reaches \<open>2 ^ 1024\<close>. This is the arithmetic of a platform that evaluates
  \<^verbatim>\<open>double\<close> expressions in double precision, each operation rounded once.
  \<^verbatim>\<open>sqrt\<close> and \<^verbatim>\<open>pow\<close> round in the same way: IEEE 754 requires it of
  \<^verbatim>\<open>sqrt\<close>; of \<^verbatim>\<open>pow\<close> it is an assumption on the C library, on which
  the facts below rest only where they give the value of a square (claim C3); the powers
  of 0 and 1 are exact by the C standard. The two zeros of IEEE 754 are one value: every
  divisor of the program that is zero is the result of \<^verbatim>\<open>pow\<close> on a square root, or
  a sum of two such, that is the positive zero. The facts below are stated for \<open>Fin x\<close>
  with any real \<open>x\<close>; the doubles are among them.
\<close>

datatype dbl = Fin real | PInf | NInf | NaN

fun isfinite :: "dbl \<Rightarrow> bool" where
  "isfinite (Fin x) = True"
| "isfinite PInf = False"
| "isfinite NInf = False"
| "isfinite NaN = False"

text \<open>
  The integer nearest to a real number, the even one of two that are equally near.
\<close>

definition round_even :: "real \<Rightarrow> int" where
  "round_even r =
     (let f = \<lfloor>r\<rfloor> in
      if r - of_int f < 1 / 2 then f
      else if 1 / 2 < r - of_int f then f + 1
      else if even f then f else f + 1)"

text \<open>
  The exponent of the unit in the last place of the doubles around \<open>x\<close>: 52 below the
  exponent of \<open>x\<close>, and \<open>- 1074\<close> for the subnormal numbers.
\<close>

definition ulp_exp :: "real \<Rightarrow> int" where
  "ulp_exp x = max (\<lfloor>log 2 \<bar>x\<bar>\<rfloor> - 52) (- 1074)"

text \<open>
  Rounding to binary64. A value whose nearest multiple of the unit in the last place
  has the magnitude \<open>2 ^ 1024\<close> or more overflows to the infinity of its sign.
\<close>

definition dbl_overflow :: real where
  "dbl_overflow = 2 ^ 1024"

definition rnd :: "real \<Rightarrow> dbl" where
  "rnd x =
     (if x = 0 then Fin 0
      else
        let e = ulp_exp x; y = of_int (round_even (x / 2 powi e)) * 2 powi e in
        if dbl_overflow \<le> \<bar>y\<bar> then (if 0 < x then PInf else NInf) else Fin y)"

fun dneg :: "dbl \<Rightarrow> dbl" where
  "dneg (Fin x) = Fin (- x)"
| "dneg PInf = NInf"
| "dneg NInf = PInf"
| "dneg NaN = NaN"

fun dadd :: "dbl \<Rightarrow> dbl \<Rightarrow> dbl" where
  "dadd (Fin x) (Fin y) = rnd (x + y)"
| "dadd NaN y = NaN"
| "dadd x NaN = NaN"
| "dadd PInf NInf = NaN"
| "dadd NInf PInf = NaN"
| "dadd PInf y = PInf"
| "dadd NInf y = NInf"
| "dadd x PInf = PInf"
| "dadd x NInf = NInf"

definition dsub :: "dbl \<Rightarrow> dbl \<Rightarrow> dbl" where
  "dsub x y = dadd x (dneg y)"

text \<open>The infinity with the sign of a nonzero finite factor.\<close>

definition signed_inf :: "real \<Rightarrow> dbl" where
  "signed_inf x = (if 0 < x then PInf else if x < 0 then NInf else NaN)"

fun dmul :: "dbl \<Rightarrow> dbl \<Rightarrow> dbl" where
  "dmul (Fin x) (Fin y) = rnd (x * y)"
| "dmul NaN y = NaN"
| "dmul x NaN = NaN"
| "dmul (Fin x) PInf = signed_inf x"
| "dmul (Fin x) NInf = signed_inf (- x)"
| "dmul PInf (Fin y) = signed_inf y"
| "dmul NInf (Fin y) = signed_inf (- y)"
| "dmul PInf PInf = PInf"
| "dmul PInf NInf = NInf"
| "dmul NInf PInf = NInf"
| "dmul NInf NInf = PInf"

text \<open>
  Division never traps: a nonzero finite value over zero is an infinity, zero over
  zero is a NaN, and a finite value over an infinity is zero.
\<close>

fun ddiv :: "dbl \<Rightarrow> dbl \<Rightarrow> dbl" where
  "ddiv (Fin x) (Fin y) = (if y = 0 then signed_inf x else rnd (x / y))"
| "ddiv NaN y = NaN"
| "ddiv x NaN = NaN"
| "ddiv (Fin x) PInf = Fin 0"
| "ddiv (Fin x) NInf = Fin 0"
| "ddiv PInf (Fin y) = (if 0 \<le> y then PInf else NInf)"
| "ddiv NInf (Fin y) = (if 0 \<le> y then NInf else PInf)"
| "ddiv PInf PInf = NaN"
| "ddiv PInf NInf = NaN"
| "ddiv NInf PInf = NaN"
| "ddiv NInf NInf = NaN"

fun dsqrt :: "dbl \<Rightarrow> dbl" where
  "dsqrt (Fin x) = (if x < 0 then NaN else rnd (sqrt x))"
| "dsqrt PInf = PInf"
| "dsqrt NInf = NaN"
| "dsqrt NaN = NaN"

text \<open>
  \<^verbatim>\<open>pow\<close> of the C library, with the special cases of the C standard (Annex F):
  any base to the power zero is one, and one to any power is one, even for a NaN; a
  negative finite base has a real power only for an integral exponent; zero to a
  negative power is the positive infinity.
\<close>

definition odd_integer :: "real \<Rightarrow> bool" where
  "odd_integer a = (a \<in> \<int> \<and> odd \<lfloor>a\<rfloor>)"

fun dpow_cases :: "dbl \<Rightarrow> dbl \<Rightarrow> dbl" where
  "dpow_cases NaN e = NaN"
| "dpow_cases b NaN = NaN"
| "dpow_cases (Fin x) (Fin a) =
     (if x = 0 then (if 0 < a then Fin 0 else PInf)
      else if 0 < x then rnd (x powr a)
      else if a \<in> \<int> then rnd (x powi \<lfloor>a\<rfloor>)
      else NaN)"
| "dpow_cases (Fin x) PInf =
     (if \<bar>x\<bar> < 1 then Fin 0 else if 1 < \<bar>x\<bar> then PInf else Fin 1)"
| "dpow_cases (Fin x) NInf =
     (if \<bar>x\<bar> < 1 then PInf else if 1 < \<bar>x\<bar> then Fin 0 else Fin 1)"
| "dpow_cases PInf (Fin a) = (if 0 < a then PInf else Fin 0)"
| "dpow_cases PInf PInf = PInf"
| "dpow_cases PInf NInf = Fin 0"
| "dpow_cases NInf (Fin a) =
     (if 0 < a then (if odd_integer a then NInf else PInf) else Fin 0)"
| "dpow_cases NInf PInf = PInf"
| "dpow_cases NInf NInf = Fin 0"

definition dpow :: "dbl \<Rightarrow> dbl \<Rightarrow> dbl" where
  "dpow b e = (if e = Fin 0 \<or> b = Fin 1 then Fin 1 else dpow_cases b e)"

text \<open>
  The real numbers that are finite doubles: a mantissa of at most 53 bits times a power of
  two, from the exponent of the subnormal numbers up to that of the largest double.
\<close>

definition is_double :: "real \<Rightarrow> bool" where
  "is_double x = (\<exists>m e. x = of_int m * 2 powi e \<and> \<bar>m\<bar> < 2 ^ 53 \<and> - 1074 \<le> e \<and> e \<le> 971)"

section \<open>Points, paths and segments\<close>

text \<open>
  A point is a \<^verbatim>\<open>std::vector<double>\<close>: a list, read with \<^verbatim>\<open>at\<close> (here
  \<open>at'\<close>), which throws \<^verbatim>\<open>std::out_of_range\<close> past the end. That exception is the only
  one the program can raise, so a computation that may throw returns an option and
  \<open>None\<close> is the exception.
\<close>

type_synonym point = "dbl list"

definition at' :: "'a list \<Rightarrow> nat \<Rightarrow> 'a option" where
  "at' xs i = (if i < length xs then Some (xs ! i) else None)"

record Path =
  points :: "point list"

definition getPoint :: "Path \<Rightarrow> nat \<Rightarrow> point option" where
  "getPoint path t = at' (points path) t"

definition addPoint :: "Path \<Rightarrow> point \<Rightarrow> Path" where
  "addPoint path point = path\<lparr>points := points path @ [point]\<rparr>"

record Segment =
  a :: point
  b :: point
  c :: point
  d :: point

section \<open>Vector utilities\<close>

definition getMagnitude :: "point \<Rightarrow> dbl option" where
  "getMagnitude point = do {
     x \<leftarrow> at' point 0;
     y \<leftarrow> at' point 1;
     Some (dsqrt (dadd (dpow x (Fin 2)) (dpow y (Fin 2))))
   }"

text \<open>
  The second component of the difference is \<^verbatim>\<open>p1.at(1) - p1.at(1)\<close> in the
  source: \<open>p1\<close> on both sides.
\<close>

definition distance :: "point \<Rightarrow> point \<Rightarrow> dbl option" where
  "distance p0 p1 = do {
     x1 \<leftarrow> at' p1 0;
     x0 \<leftarrow> at' p0 0;
     y1 \<leftarrow> at' p1 1;
     y1' \<leftarrow> at' p1 1;
     getMagnitude [dsub x1 x0, dsub y1 y1']
   }"

section \<open>The segment coefficient solver\<close>

text \<open>
  \<^verbatim>\<open>calcCoefficients\<close>, expression by expression; \<open>knotSpacing alpha p q\<close> is
  its \<^verbatim>\<open>pow(distance(p, q), alpha)\<close>. No divisor is tested before the division.
\<close>

definition knotSpacing :: "dbl \<Rightarrow> point \<Rightarrow> point \<Rightarrow> dbl option" where
  "knotSpacing alpha p q = do {
     l \<leftarrow> distance p q;
     Some (dpow l alpha)
   }"

definition calcCoefficients ::
  "dbl \<Rightarrow> dbl \<Rightarrow> point \<Rightarrow> point \<Rightarrow> point \<Rightarrow> point \<Rightarrow> Segment option" where
  "calcCoefficients alpha tension p0 p1 p2 p3 = do {
     t01 \<leftarrow> knotSpacing alpha p0 p1;
     t12 \<leftarrow> knotSpacing alpha p1 p2;
     t23 \<leftarrow> knotSpacing alpha p2 p3;
     p0x \<leftarrow> at' p0 0; p0y \<leftarrow> at' p0 1;
     p1x \<leftarrow> at' p1 0; p1y \<leftarrow> at' p1 1;
     p2x \<leftarrow> at' p2 0; p2y \<leftarrow> at' p2 1;
     p3x \<leftarrow> at' p3 0; p3y \<leftarrow> at' p3 1;
     let m1x = dmul (dsub (Fin 1) tension)
       (dadd (dsub p2x p1x)
         (dmul t12 (dsub (ddiv (dsub p1x p0x) t01) (ddiv (dsub p2x p0x) (dadd t01 t12)))));
     let m1y = dmul (dsub (Fin 1) tension)
       (dadd (dsub p2y p1y)
         (dmul t12 (dsub (ddiv (dsub p1y p0y) t01) (ddiv (dsub p2y p0y) (dadd t01 t12)))));
     let m1 = [m1x, m1y];
     let m2x = dmul (dsub (Fin 1) tension)
       (dadd (dsub p2x p1x)
         (dmul t12 (dsub (ddiv (dsub p3x p2x) t23) (ddiv (dsub p3x p1x) (dadd t12 t23)))));
     let m2y = dmul (dsub (Fin 1) tension)
       (dadd (dsub p2y p1y)
         (dmul t12 (dsub (ddiv (dsub p3y p2y) t23) (ddiv (dsub p3y p1y) (dadd t12 t23)))));
     let m2 = [m2x, m2y];
     m1_0 \<leftarrow> at' m1 0; m1_1 \<leftarrow> at' m1 1;
     m2_0 \<leftarrow> at' m2 0; m2_1 \<leftarrow> at' m2 1;
     Some \<lparr>
       a = [dadd (dadd (dmul (Fin 2) (dsub p1x p2x)) m1_0) m2_0,
            dadd (dadd (dmul (Fin 2) (dsub p1y p2y)) m1_1) m2_1],
       b = [dsub (dsub (dsub (dmul (Fin (- 3)) (dsub p1x p2x)) m1_0) m1_0) m2_0,
            dsub (dsub (dsub (dmul (Fin (- 3)) (dsub p1y p2y)) m1_1) m1_1) m2_1],
       c = [m1_0, m1_1],
       d = [p1x, p1y]
     \<rparr>
   }"

section \<open>The counter of the sampling loop\<close>

text \<open>
  The loop \<^verbatim>\<open>for (double t = 0.1; t <= 1; t += 0.1)\<close> adds the double nearest to
  0.1 to a double again and again, and each sum is rounded to 53 significant bits. How
  often the loop runs depends on these roundings, so the counter has a model that can be
  run: a binary floating point number \<open>Fp m e\<close> of value \<open>m * 2\<^sup>e\<close>, whose
  addition rounds the exact sum to the nearest number of 53 bits, to the even one of two
  that are equally near (the counter stays between 0.1 and 1.1, far from overflow and
  from the subnormal numbers). These sums are the sums of \<open>dadd\<close> above, as is proved
  for the ten rounds of the loop at the end. A platform that keeps the counter in a wider
  register may run the loop a different number of times. The cubic is evaluated at the
  value of the counter, in the arithmetic above.
\<close>

datatype fp = Fp int int

fun fp_val :: "fp \<Rightarrow> real" where
  "fp_val (Fp m e) = of_int m * 2 powi e"

fun nbits :: "nat \<Rightarrow> nat" where
  "nbits n = (if n = 0 then 0 else Suc (nbits (n div 2)))"

fun fp_round :: "fp \<Rightarrow> fp" where
  "fp_round (Fp m e) =
     (let n = nbits (nat \<bar>m\<bar>) in
      if n \<le> 53 then Fp m e
      else
        let k = n - 53; q = m div 2 ^ k; r = m mod 2 ^ k; h = 2 ^ (k - 1) in
        Fp (if r < h then q else if h < r then q + 1 else if even q then q else q + 1)
           (e + int k))"

fun fp_add :: "fp \<Rightarrow> fp \<Rightarrow> fp" where
  "fp_add (Fp m1 e1) (Fp m2 e2) =
     (let e = min e1 e2 in
      fp_round (Fp (m1 * 2 ^ nat (e1 - e) + m2 * 2 ^ nat (e2 - e)) e))"

fun fp_le :: "fp \<Rightarrow> fp \<Rightarrow> bool" where
  "fp_le (Fp m1 e1) (Fp m2 e2) =
     (let e = min e1 e2 in m1 * 2 ^ nat (e1 - e) \<le> m2 * 2 ^ nat (e2 - e))"

text \<open>
  The literal \<^verbatim>\<open>0.1\<close> is the double \<open>0x1.999999999999ap-4\<close>, and the \<open>1\<close> of
  the loop test is the double 1.
\<close>

definition fp_tenth :: fp where
  "fp_tenth = Fp 7205759403792794 (- 56)"

definition fp_one :: fp where
  "fp_one = Fp 1 0"

section \<open>The path smoother\<close>

text \<open>
  The value of a segment's cubic at the counter \<open>t\<close>: the body of the sampling loop,
  \<^verbatim>\<open>a.at(i) * pow(t,3) + b.at(i) * pow(t,2) + c.at(i) * t + d.at(i)\<close> for both
  coordinates.
\<close>

definition cubicAt :: "point \<Rightarrow> point \<Rightarrow> point \<Rightarrow> point \<Rightarrow> nat \<Rightarrow> dbl \<Rightarrow> dbl option" where
  "cubicAt ca cb cc cd i t = do {
     ai \<leftarrow> at' ca i;
     bi \<leftarrow> at' cb i;
     ci \<leftarrow> at' cc i;
     di \<leftarrow> at' cd i;
     Some (dadd (dadd (dadd (dmul ai (dpow t (Fin 3))) (dmul bi (dpow t (Fin 2))))
                      (dmul ci t)) di)
   }"

definition samplePoint :: "Segment \<Rightarrow> dbl \<Rightarrow> point option" where
  "samplePoint currentSegment t = do {
     xVal \<leftarrow> cubicAt (a currentSegment) (b currentSegment) (c currentSegment)
               (d currentSegment) 0 t;
     yVal \<leftarrow> cubicAt (a currentSegment) (b currentSegment) (c currentSegment)
               (d currentSegment) 1 t;
     Some [xVal, yVal]
   }"

text \<open>
  The inner loop, from the counter \<open>t\<close> on. Nothing in the text of the loop bounds the
  number of its rounds, so it is a partial function: \<open>None\<close> is also a loop that does
  not end, and that it ends is proved below.
\<close>

partial_function (option) sampleLoop :: "Segment \<Rightarrow> fp \<Rightarrow> Path \<Rightarrow> Path option" where
  "sampleLoop currentSegment t smoothedPath =
     (if fp_le t fp_one then do {
        point \<leftarrow> samplePoint currentSegment (Fin (fp_val t));
        sampleLoop currentSegment (fp_add t fp_tenth) (addPoint smoothedPath point)
      }
      else Some smoothedPath)"

text \<open>
  The first part of \<^verbatim>\<open>generateSmoothPath\<close>: the two control points are added to
  the path (the function's own copy of it). The sizes are of type \<open>size_t\<close> and at
  least 3 where 1 and 2 are subtracted, since \<^verbatim>\<open>getPoint(1)\<close> has not thrown.
\<close>

definition injectControlPoints :: "Path \<Rightarrow> Path option" where
  "injectControlPoints path = do {
     firstPoint \<leftarrow> getPoint path 0;
     second \<leftarrow> getPoint path 1;
     second_x \<leftarrow> at' second 0;
     first_x \<leftarrow> at' firstPoint 0;
     let diff_x1 = dsub second_x first_x;
     second_y \<leftarrow> at' second 1;
     first_y \<leftarrow> at' firstPoint 1;
     let diff_y1 = dsub second_y first_y;
     let startingControl = [dsub first_x diff_x1, dsub first_y diff_y1];
     let path = path\<lparr>points := startingControl # points path\<rparr>;
     lastPoint \<leftarrow> getPoint path (length (points path) - 1);
     beforeLast \<leftarrow> getPoint path (length (points path) - 2);
     last_x \<leftarrow> at' lastPoint 0;
     before_x \<leftarrow> at' beforeLast 0;
     let diff_x2 = dsub last_x before_x;
     last_y \<leftarrow> at' lastPoint 1;
     before_y \<leftarrow> at' beforeLast 1;
     let diff_y2 = dsub last_y before_y;
     let finalControl = [dadd last_x diff_x2, dadd last_y diff_y2];
     Some (path\<lparr>points := points path @ [finalControl]\<rparr>)
   }"

text \<open>
  The loop over the windows of four control points, from the index \<open>i\<close> on. Its bound
  \<^verbatim>\<open>path.points.size()-3\<close> is at least 1 when the loop is reached.
\<close>

function segmentsLoop :: "Path \<Rightarrow> nat \<Rightarrow> Segment list \<Rightarrow> Segment list option" where
  "segmentsLoop path i segments =
     (if i < length (points path) - 3 then do {
        p0 \<leftarrow> getPoint path i;
        p1 \<leftarrow> getPoint path (i + 1);
        p2 \<leftarrow> getPoint path (i + 2);
        p3 \<leftarrow> getPoint path (i + 3);
        segment \<leftarrow> calcCoefficients (Fin 0.75) (Fin 0) p0 p1 p2 p3;
        segmentsLoop path (i + 1) (segments @ [segment])
      }
      else Some segments)"
  by pat_completeness auto
termination
  by (relation "measure (\<lambda>(path, i, segments). length (points path) - 3 - i)") auto

text \<open>The loop over the segments, from the index \<open>z\<close> on.\<close>

function smoothLoop :: "Segment list \<Rightarrow> nat \<Rightarrow> Path \<Rightarrow> Path option" where
  "smoothLoop segments z smoothedPath =
     (if z < length segments then do {
        currentSegment \<leftarrow> at' segments z;
        smoothedPath \<leftarrow>
          (if z = 0 then do {
             first \<leftarrow> at' segments 0;
             xVal \<leftarrow> at' (d first) 0;
             yVal \<leftarrow> at' (d first) 1;
             Some (addPoint smoothedPath [xVal, yVal])
           }
           else Some smoothedPath);
        smoothedPath \<leftarrow> sampleLoop currentSegment fp_tenth smoothedPath;
        smoothLoop segments (z + 1) smoothedPath
      }
      else Some smoothedPath)"
  by pat_completeness auto
termination
  by (relation "measure (\<lambda>(segments, z, smoothedPath). length segments - z)") auto

definition generateSmoothPath :: "Path \<Rightarrow> Path option" where
  "generateSmoothPath path = do {
     path \<leftarrow> injectControlPoints path;
     segments \<leftarrow> segmentsLoop path 0 [];
     smoothLoop segments 0 \<lparr>points = []\<rparr>
   }"

section \<open>Rounding to the nearest double\<close>

text \<open>
  The facts about \<open>rnd\<close> that the claims need: a double is rounded to itself, a finite
  result is a double within half a unit in the last place of what was rounded, and what is
  smaller than \<open>2 powi 1023\<close> in magnitude is rounded to a finite value.
\<close>

lemma round_even_error: "\<bar>real_of_int (round_even r) - r\<bar> \<le> 1 / 2"
  unfolding round_even_def Let_def by (auto simp: abs_le_iff)

lemma round_even_near:
  assumes "\<bar>r - real_of_int n\<bar> < 1 / 2"
  shows "round_even r = n"
proof -
  have "\<bar>real_of_int (round_even r) - real_of_int n\<bar> < 1"
    using round_even_error [of r] assms by linarith
  then have "\<bar>round_even r - n\<bar> < 1"
    by (metis of_int_diff of_int_abs of_int_less_iff of_int_1)
  then show ?thesis by linarith
qed

lemma round_even_of_int [simp]: "round_even (real_of_int n) = n"
  by (rule round_even_near) simp

lemma round_even_ge:
  assumes "real_of_int n \<le> r"
  shows "n \<le> round_even r"
proof -
  have "n \<le> \<lfloor>r\<rfloor>" using assms by (simp add: le_floor_iff)
  then show ?thesis
    unfolding round_even_def Let_def by auto
qed

lemma round_even_le:
  assumes "r \<le> real_of_int n"
  shows "round_even r \<le> n"
proof (cases "r = real_of_int n")
  case True
  then show ?thesis by simp
next
  case False
  with assms have "r < real_of_int n" by simp
  then have "\<lfloor>r\<rfloor> < n" by (simp add: floor_less_iff)
  then show ?thesis
    unfolding round_even_def Let_def by auto
qed

lemma two_powi_pos [simp]: "(0::real) < 2 powi k"
  by simp

lemma two_powi_less_iff: "(2::real) powi j < 2 powi k \<longleftrightarrow> j < k"
  by (metis linorder_neqE_linordered_idom one_less_numeral_iff order_less_asym
      power_int_strict_increasing semiring_norm(76))

lemma two_powi_le_iff: "(2::real) powi j \<le> 2 powi k \<longleftrightarrow> j \<le> k"
  by (metis linorder_not_less two_powi_less_iff)

lemma floor_log2_eq:
  assumes "2 powi k \<le> \<bar>x::real\<bar>" "\<bar>x\<bar> < 2 powi (k + 1)"
  shows "\<lfloor>log 2 \<bar>x\<bar>\<rfloor> = k"
proof -
  have pos: "0 < \<bar>x\<bar>" using assms(1) two_powi_pos [of k] by linarith
  have "(2::real) powr real_of_int k = 2 powi k"
    by (simp add: powr_real_of_int')
  moreover have "(2::real) powr (real_of_int k + 1) = 2 powi (k + 1)"
    using powr_real_of_int' [of 2 "k + 1"] by simp
  ultimately show ?thesis
    using assms floor_log_eq_powr_iff [OF pos, of 2 k] by simp
qed

lemma floor_log2_bounds:
  assumes "x \<noteq> (0::real)"
  shows "2 powi \<lfloor>log 2 \<bar>x\<bar>\<rfloor> \<le> \<bar>x\<bar>" "\<bar>x\<bar> < 2 powi (\<lfloor>log 2 \<bar>x\<bar>\<rfloor> + 1)"
proof -
  have pos: "0 < \<bar>x\<bar>" using assms by simp
  have "(2::real) powr real_of_int k = 2 powi k" for k
    by (simp add: powr_real_of_int')
  moreover have "(2::real) powr (real_of_int k + 1) = 2 powi (k + 1)" for k
    using powr_real_of_int' [of 2 "k + 1"] by simp
  ultimately show "2 powi \<lfloor>log 2 \<bar>x\<bar>\<rfloor> \<le> \<bar>x\<bar>" "\<bar>x\<bar> < 2 powi (\<lfloor>log 2 \<bar>x\<bar>\<rfloor> + 1)"
    using floor_log_eq_powr_iff [OF pos, of 2 "\<lfloor>log 2 \<bar>x\<bar>\<rfloor>"] by simp_all
qed

lemma ulp_exp_eq:
  assumes "2 powi k \<le> \<bar>x\<bar>" "\<bar>x\<bar> < 2 powi (k + 1)"
  shows "ulp_exp x = max (k - 52) (- 1074)"
  by (simp add: ulp_exp_def floor_log2_eq [OF assms])

lemma rnd_0 [simp]: "rnd 0 = Fin 0"
  by (simp add: rnd_def)

lemma two_powi_add: "(2::real) powi (i + j) = 2 powi i * 2 powi j"
  by (rule power_int_add) simp

lemma two_powi_diff: "(2::real) powi (i - j) = 2 powi i / 2 powi j"
  by (rule power_int_diff) simp

lemma abs_scaled: "\<bar>x / 2 powi e\<bar> = \<bar>x::real\<bar> / 2 powi e"
  by simp

lemma rnd_eval:
  assumes "2 powi k \<le> \<bar>x\<bar>" "\<bar>x\<bar> < 2 powi (k + 1)"
  shows "rnd x =
     (let e = max (k - 52) (- 1074); y = of_int (round_even (x / 2 powi e)) * 2 powi e in
      if dbl_overflow \<le> \<bar>y\<bar> then (if 0 < x then PInf else NInf) else Fin y)"
proof -
  have "0 < \<bar>x\<bar>" using assms(1) two_powi_pos [of k] by linarith
  then have "x \<noteq> 0" by simp
  then show ?thesis
    by (simp add: rnd_def ulp_exp_eq [OF assms])
qed

text \<open>The scaled value that is rounded to an integer has at most 53 bits before the point.\<close>

lemma scaled_bound:
  assumes "x \<noteq> 0"
  shows "\<bar>x / 2 powi ulp_exp x\<bar> < 2 powi 53"
proof -
  define k where "k = \<lfloor>log 2 \<bar>x\<bar>\<rfloor>"
  define e where "e = ulp_exp x"
  have "k + 1 - e \<le> 53" by (simp add: ulp_exp_def k_def e_def)
  then have le: "(2::real) powi (k + 1 - e) \<le> 2 powi 53"
    by (rule iffD2 [OF two_powi_le_iff])
  have "\<bar>x\<bar> < 2 powi (k + 1)"
    using floor_log2_bounds(2) [OF assms] by (simp add: k_def)
  then have "\<bar>x\<bar> / 2 powi e < 2 powi (k + 1) / 2 powi e"
    by (rule divide_strict_right_mono) simp
  also have "\<dots> = 2 powi (k + 1 - e)"
    by (rule two_powi_diff [symmetric])
  finally show ?thesis
    using le unfolding abs_scaled e_def by linarith
qed

lemma scaled_normal:
  assumes "x \<noteq> 0" "- 1074 \<le> \<lfloor>log 2 \<bar>x\<bar>\<rfloor> - 52"
  shows "2 powi 52 \<le> \<bar>x / 2 powi ulp_exp x\<bar>"
proof -
  define k where "k = \<lfloor>log 2 \<bar>x\<bar>\<rfloor>"
  have e: "ulp_exp x = k - 52" using assms(2) by (simp add: ulp_exp_def k_def)
  have "2 powi k \<le> \<bar>x\<bar>"
    using floor_log2_bounds(1) [OF assms(1)] by (simp add: k_def)
  then have "2 powi k / 2 powi (k - 52) \<le> \<bar>x\<bar> / 2 powi (k - 52)"
    by (rule divide_right_mono) simp
  moreover have "(2::real) powi k / 2 powi (k - 52) = 2 powi (k - (k - 52))"
    by (rule two_powi_diff [symmetric])
  moreover have "k - (k - 52) = 52" by simp
  ultimately show ?thesis
    unfolding abs_scaled e by simp
qed

lemma rnd_Fin_eq:
  assumes "rnd x = Fin y" "x \<noteq> 0"
  shows "y = of_int (round_even (x / 2 powi ulp_exp x)) * 2 powi ulp_exp x"
    and "\<bar>y\<bar> < dbl_overflow"
  using assms by (auto simp: rnd_def Let_def split: if_splits)

lemma rnd_half_ulp:
  assumes "rnd x = Fin y" "x \<noteq> 0"
  shows "\<bar>y - x\<bar> \<le> 2 powi ulp_exp x / 2"
proof -
  define e where "e = ulp_exp x"
  define M where "M = round_even (x / 2 powi e)"
  have y: "y = of_int M * 2 powi e"
    using rnd_Fin_eq(1) [OF assms] by (simp add: M_def e_def)
  have "\<bar>of_int M - x / 2 powi e\<bar> \<le> 1 / 2"
    unfolding M_def by (rule round_even_error)
  then have "\<bar>of_int M - x / 2 powi e\<bar> * 2 powi e \<le> 1 / 2 * 2 powi e"
    by (rule mult_right_mono) simp
  moreover have "\<bar>of_int M - x / 2 powi e\<bar> * 2 powi e = \<bar>of_int M * 2 powi e - x\<bar>"
  proof -
    have "\<bar>of_int M - x / 2 powi e\<bar> * 2 powi e = \<bar>(of_int M - x / 2 powi e) * 2 powi e\<bar>"
      by (simp add: abs_mult)
    also have "(of_int M - x / 2 powi e) * 2 powi e = of_int M * 2 powi e - x"
      by (simp add: algebra_simps)
    finally show ?thesis .
  qed
  ultimately have "\<bar>of_int M * 2 powi e - x\<bar> \<le> 1 / 2 * 2 powi e"
    by linarith
  then show ?thesis by (simp add: y e_def)
qed

lemma floor_log2_less:
  assumes "x \<noteq> 0" "\<bar>x::real\<bar> < 2 powi n"
  shows "\<lfloor>log 2 \<bar>x\<bar>\<rfloor> < n"
proof -
  have "2 powi \<lfloor>log 2 \<bar>x\<bar>\<rfloor> < (2::real) powi n"
    using floor_log2_bounds(1) [OF assms(1)] assms(2) by linarith
  then show ?thesis by (simp only: two_powi_less_iff)
qed

lemma floor_log2_ge:
  assumes "2 powi n \<le> \<bar>x::real\<bar>"
  shows "n \<le> \<lfloor>log 2 \<bar>x\<bar>\<rfloor>"
proof -
  have "0 < \<bar>x\<bar>" using assms two_powi_pos [of n] by linarith
  then have "x \<noteq> 0" by simp
  then have "2 powi n < (2::real) powi (\<lfloor>log 2 \<bar>x\<bar>\<rfloor> + 1)"
    using floor_log2_bounds(2) [of x] assms by linarith
  then have "n < \<lfloor>log 2 \<bar>x\<bar>\<rfloor> + 1" by (simp only: two_powi_less_iff)
  then show ?thesis by simp
qed

lemma dbl_overflow_powi: "dbl_overflow = 2 powi 1024"
  by (simp add: dbl_overflow_def)

lemma of_int_abs_less_powi:
  assumes "\<bar>m\<bar> < (2::int) ^ n"
  shows "\<bar>real_of_int m\<bar> < 2 powi int n"
proof -
  have "real_of_int \<bar>m\<bar> < real_of_int (2 ^ n)"
    using assms by (simp only: of_int_less_iff)
  then show ?thesis by simp
qed

text \<open>A double is rounded to itself.\<close>

lemma rnd_double:
  assumes "is_double x"
  shows "rnd x = Fin x"
proof (cases "x = 0")
  case True
  then show ?thesis by simp
next
  case False
  from assms obtain m e where x: "x = of_int m * 2 powi e" and m: "\<bar>m\<bar> < 2 ^ 53"
    and e: "- 1074 \<le> e" "e \<le> 971"
    by (auto simp: is_double_def)
  have am: "\<bar>real_of_int m\<bar> < 2 powi 53"
    using of_int_abs_less_powi [OF m] by simp
  have ax: "\<bar>x\<bar> = \<bar>real_of_int m\<bar> * 2 powi e"
    by (simp add: x abs_mult)
  have "\<bar>x\<bar> < 2 powi 53 * 2 powi e"
    unfolding ax using am by (rule mult_strict_right_mono) simp
  then have lt: "\<bar>x\<bar> < 2 powi (53 + e)"
    by (simp only: two_powi_add)
  then have "\<lfloor>log 2 \<bar>x\<bar>\<rfloor> < 53 + e"
    using False by (rule floor_log2_less [rotated])
  then have ee: "ulp_exp x \<le> e"
    using e(1) by (simp add: ulp_exp_def)
  define u where "u = ulp_exp x"
  define j where "j = nat (e - u)"
  have "e = u + int j" using ee by (simp add: j_def u_def)
  then have "(2::real) powi e = 2 powi u * 2 ^ j"
    by (metis power_int_of_nat two_powi_add)
  then have xu: "x = of_int (m * 2 ^ j) * 2 powi u"
    by (simp add: x)
  then have "x / 2 powi u = of_int (m * 2 ^ j)"
    by simp
  then have "round_even (x / 2 powi u) = m * 2 ^ j"
    by (simp only: round_even_of_int)
  then have "real_of_int (round_even (x / 2 powi u)) * 2 powi u = x"
    using xu by simp
  then have "real_of_int (round_even (x / 2 powi ulp_exp x)) * 2 powi ulp_exp x = x"
    by (simp only: u_def)
  moreover have "\<bar>x\<bar> < dbl_overflow"
  proof -
    have "53 + e \<le> 1024" using e(2) by simp
    then have "(2::real) powi (53 + e) \<le> 2 powi 1024"
      by (rule iffD2 [OF two_powi_le_iff])
    then show ?thesis using lt by (simp only: dbl_overflow_powi)
  qed
  ultimately show ?thesis
    using False by (simp add: rnd_def Let_def)
qed

lemma is_double_of_int: "\<bar>m\<bar> < 2 ^ 53 \<Longrightarrow> is_double (of_int m)"
  unfolding is_double_def by (rule exI [of _ m], rule exI [of _ 0]) simp

lemma is_double_scaled:
  "\<bar>m\<bar> < 2 ^ 53 \<Longrightarrow> - 1074 \<le> e \<Longrightarrow> e \<le> 971 \<Longrightarrow> is_double (of_int m * 2 powi e)"
  unfolding is_double_def by blast

lemma is_double_numeral: "numeral n < (2 ^ 53 :: int) \<Longrightarrow> is_double (numeral n)"
  using is_double_of_int [of "numeral n"] by simp

lemma is_double_0 [simp]: "is_double 0"
  using is_double_of_int [of 0] by simp

lemma is_double_1 [simp]: "is_double 1"
  using is_double_of_int [of 1] by simp

lemma is_double_minus [simp]: "is_double (- x) = is_double x"
proof -
  have "is_double (- x)" if "is_double x" for x
  proof -
    from that obtain m e where "x = of_int m * 2 powi e" "\<bar>m\<bar> < 2 ^ 53" "- 1074 \<le> e" "e \<le> 971"
      by (auto simp: is_double_def)
    then have "- x = of_int (- m) * 2 powi e" "\<bar>- m\<bar> < 2 ^ 53" by simp_all
    then show ?thesis
      using \<open>- 1074 \<le> e\<close> \<open>e \<le> 971\<close> unfolding is_double_def by blast
  qed
  from this [of x] this [of "- x"] show ?thesis by auto
qed

lemma is_double_abs [simp]: "is_double \<bar>x\<bar> = is_double x"
  by (cases "0 \<le> x") (simp_all add: abs_if)

lemma rnd_numeral [simp]: "numeral n < (2 ^ 53 :: int) \<Longrightarrow> rnd (numeral n) = Fin (numeral n)"
  by (rule rnd_double) (rule is_double_numeral)

lemma rnd_neg_numeral [simp]:
  "numeral n < (2 ^ 53 :: int) \<Longrightarrow> rnd (- numeral n) = Fin (- numeral n)"
  by (rule rnd_double) (simp add: is_double_numeral)

lemma rnd_1 [simp]: "rnd 1 = Fin 1"
  by (rule rnd_double) simp

text \<open>A finite result of rounding is a double, has the sign of what was rounded, and is
  within half a unit in the last place of it.\<close>

lemma rnd_is_double:
  assumes "rnd x = Fin y"
  shows "is_double y"
proof (cases "x = 0")
  case True
  with assms show ?thesis by simp
next
  case False
  define e where "e = ulp_exp x"
  define M where "M = round_even (x / 2 powi e)"
  have y: "y = of_int M * 2 powi e" and "\<bar>y\<bar> < dbl_overflow"
    using rnd_Fin_eq [OF assms False] by (simp_all add: M_def e_def)
  then have fin: "\<bar>y\<bar> < 2 powi 1024"
    by (simp only: dbl_overflow_powi)
  have e_low: "- 1074 \<le> e" by (simp add: e_def ulp_exp_def)
  define z where "z = x / 2 powi e"
  have "\<bar>z\<bar> < 2 powi 53"
    unfolding z_def e_def by (rule scaled_bound [OF False])
  moreover have "(2::real) powi 53 = real_of_int (2 ^ 53)" by simp
  ultimately have "z \<le> real_of_int (2 ^ 53)" "real_of_int (- (2 ^ 53)) \<le> z"
    by linarith+
  then have "x / 2 powi e \<le> real_of_int (2 ^ 53)" "real_of_int (- (2 ^ 53)) \<le> x / 2 powi e"
    by (simp_all only: z_def)
  then have M: "M \<le> 2 ^ 53" "- (2 ^ 53) \<le> M"
    unfolding M_def using round_even_le round_even_ge by blast+
  have ay: "\<bar>y\<bar> = real_of_int \<bar>M\<bar> * 2 powi e"
    by (simp add: y abs_mult)
  show ?thesis
  proof (cases "M = 0")
    case True
    then show ?thesis by (simp add: y)
  next
    case nz: False
    then have "1 \<le> \<bar>M\<bar>" by simp
    then have "1 \<le> real_of_int \<bar>M\<bar>" by linarith
    then have "1 * 2 powi e \<le> real_of_int \<bar>M\<bar> * 2 powi e"
      by (rule mult_right_mono) simp
    then have "2 powi e \<le> real_of_int \<bar>M\<bar> * 2 powi e"
      by (simp only: mult_1)
    then have "2 powi e < (2::real) powi 1024"
      using fin ay by linarith
    then have e_up: "e < 1024" by (simp only: two_powi_less_iff)
    show ?thesis
    proof (cases "\<bar>M\<bar> < 2 ^ 53")
      case small: True
      have "e \<le> 971"
      proof (rule ccontr)
        assume "\<not> e \<le> 971"
        then have big: "972 \<le> \<lfloor>log 2 \<bar>x\<bar>\<rfloor> - 52"
          by (simp add: e_def ulp_exp_def)
        then have "2 powi 52 \<le> \<bar>x / 2 powi ulp_exp x\<bar>"
          by (intro scaled_normal [OF False]) simp
        then have "2 powi 52 \<le> \<bar>z\<bar>"
          by (simp only: z_def e_def)
        moreover have "(2::real) powi 52 = real_of_int (2 ^ 52)" by simp
        ultimately have "real_of_int (2 ^ 52) \<le> z \<or> z \<le> real_of_int (- (2 ^ 52))"
          by linarith
        then have "real_of_int (2 ^ 52) \<le> x / 2 powi e \<or> x / 2 powi e \<le> real_of_int (- (2 ^ 52))"
          by (simp only: z_def)
        then have "2 ^ 52 \<le> M \<or> M \<le> - (2 ^ 52)"
          unfolding M_def using round_even_ge round_even_le by blast
        then have "2 ^ 52 \<le> \<bar>M\<bar>" by linarith
        then have "(2::real) powi 52 \<le> real_of_int \<bar>M\<bar>" by simp
        moreover have "(2::real) powi 972 \<le> 2 powi e"
          using \<open>\<not> e \<le> 971\<close> by (intro iffD2 [OF two_powi_le_iff]) simp
        ultimately have "(2::real) powi 52 * 2 powi 972 \<le> real_of_int \<bar>M\<bar> * 2 powi e"
          by (intro mult_mono) simp_all
        moreover have "(2::real) powi 52 * 2 powi 972 = 2 powi 1024"
          using two_powi_add [of 52 972] by (simp del: power_int_numeral)
        ultimately have "(2::real) powi 1024 \<le> \<bar>y\<bar>"
          unfolding ay by linarith
        then show False using fin by linarith
      qed
      with small e_low show ?thesis
        unfolding y by (intro is_double_scaled) simp_all
    next
      case False
      with M have "\<bar>M\<bar> = 2 ^ 53" by linarith
      then obtain N :: int where N: "M = N * 2" "\<bar>N\<bar> = 2 ^ 52"
        by (cases "0 \<le> M") (auto intro: that [of "2 ^ 52"] that [of "- (2 ^ 52)"])
      have "real_of_int \<bar>M\<bar> * 2 powi e = 2 powi 53 * 2 powi e"
        using \<open>\<bar>M\<bar> = 2 ^ 53\<close> by simp
      then have "\<bar>y\<bar> = 2 powi (53 + e)"
        unfolding ay by (simp only: two_powi_add)
      then have "(2::real) powi (53 + e) < 2 powi 1024"
        using fin by linarith
      then have "53 + e < 1024" by (simp only: two_powi_less_iff)
      have yN: "y = of_int N * 2 powi (e + 1)"
        unfolding y N(1) using two_powi_add [of e 1] by simp
      have "\<bar>N\<bar> < 2 ^ 53" using N(2) by simp
      then have "is_double (of_int N * 2 powi (e + 1))"
        using e_low \<open>53 + e < 1024\<close> by (intro is_double_scaled) simp_all
      then show ?thesis by (simp only: yN)
    qed
  qed
qed

lemma rnd_nonneg:
  assumes "rnd x = Fin y" "0 \<le> x"
  shows "0 \<le> y"
proof (cases "x = 0")
  case True
  with assms show ?thesis by simp
next
  case False
  have "real_of_int 0 \<le> x / 2 powi ulp_exp x"
    using assms(2) by simp
  then have "0 \<le> round_even (x / 2 powi ulp_exp x)"
    by (rule round_even_ge)
  then show ?thesis
    unfolding rnd_Fin_eq(1) [OF assms(1) False] by simp
qed

lemma half_ulp_cases:
  assumes "x \<noteq> 0"
  shows "(2::real) powi ulp_exp x / 2 = 2 powi (- 1075)
    \<or> (2 powi ulp_exp x / 2 \<le> 2 powi (- 53) * \<bar>x\<bar>
        \<and> 2 powi 52 \<le> \<bar>x / 2 powi ulp_exp x\<bar>)"
proof (cases "- 1074 \<le> \<lfloor>log 2 \<bar>x\<bar>\<rfloor> - 52")
  case True
  define k where "k = \<lfloor>log 2 \<bar>x\<bar>\<rfloor>"
  have e: "ulp_exp x = k - 52" using True by (simp add: ulp_exp_def k_def)
  have "(2::real) powi (k - 52) / 2 = 2 powi (k - 52) / 2 powi 1" by simp
  also have "\<dots> = 2 powi (k - 52 - 1)" by (rule two_powi_diff [symmetric])
  also have "k - 52 - 1 = - 53 + k" by simp
  also have "(2::real) powi (- 53 + k) = 2 powi (- 53) * 2 powi k" by (rule two_powi_add)
  also have "\<dots> \<le> 2 powi (- 53) * \<bar>x\<bar>"
    using floor_log2_bounds(1) [OF assms] by (intro mult_left_mono) (simp_all add: k_def)
  finally have "2 powi ulp_exp x / 2 \<le> 2 powi (- 53) * \<bar>x\<bar>"
    by (simp only: e)
  moreover have "2 powi 52 \<le> \<bar>x / 2 powi ulp_exp x\<bar>"
    using assms True by (rule scaled_normal)
  ultimately show ?thesis by blast
next
  case False
  then have e: "ulp_exp x = - 1074" by (simp add: ulp_exp_def)
  have "(2::real) powi (- 1074) / 2 = 2 powi (- 1074) / 2 powi 1" by simp
  also have "\<dots> = 2 powi (- 1074 - 1)" by (rule two_powi_diff [symmetric])
  finally have "(2::real) powi ulp_exp x / 2 = 2 powi (- 1075)"
    by (simp only: e) (simp del: power_int_numeral_neg_numeral)
  then show ?thesis by blast
qed

lemma rnd_error:
  assumes "rnd x = Fin y"
  shows "\<bar>y - x\<bar> \<le> 2 powi (- 53) * \<bar>x\<bar> + 2 powi (- 1075)"
proof (cases "x = 0")
  case True
  with assms show ?thesis by simp
next
  case False
  have nn: "0 \<le> 2 powi (- 53) * \<bar>x\<bar>" "(0::real) \<le> 2 powi (- 1075)"
    by simp_all
  from half_ulp_cases [OF False] show ?thesis
  proof (elim disjE conjE)
    assume "(2::real) powi ulp_exp x / 2 = 2 powi (- 1075)"
    then show ?thesis
      using rnd_half_ulp [OF assms False] nn by linarith
  next
    assume "2 powi ulp_exp x / 2 \<le> 2 powi (- 53) * \<bar>x\<bar>"
    then show ?thesis
      using rnd_half_ulp [OF assms False] nn by linarith
  qed
qed

lemma rnd_error_result:
  assumes "rnd x = Fin y"
  shows "\<bar>y - x\<bar> \<le> 2 powi (- 53) * \<bar>y\<bar> + 2 powi (- 1075)"
proof (cases "x = 0")
  case True
  with assms show ?thesis by simp
next
  case False
  define e where "e = ulp_exp x"
  define M where "M = round_even (x / 2 powi e)"
  define z where "z = x / 2 powi e"
  have y: "y = of_int M * 2 powi e"
    using rnd_Fin_eq(1) [OF assms False] by (simp add: M_def e_def)
  have ay: "\<bar>y\<bar> = real_of_int \<bar>M\<bar> * 2 powi e"
    by (simp add: y abs_mult)
  have nn: "0 \<le> 2 powi (- 53) * \<bar>y\<bar>" "(0::real) \<le> 2 powi (- 1075)"
    by simp_all
  from half_ulp_cases [OF False] show ?thesis
  proof
    assume "(2::real) powi ulp_exp x / 2 = 2 powi (- 1075)"
    then show ?thesis
      using rnd_half_ulp [OF assms False] nn by linarith
  next
    assume a: "2 powi ulp_exp x / 2 \<le> 2 powi (- 53) * \<bar>x\<bar>
        \<and> 2 powi 52 \<le> \<bar>x / 2 powi ulp_exp x\<bar>"
    then have "2 powi 52 \<le> \<bar>z\<bar>" by (simp only: z_def e_def)
    moreover have "(2::real) powi 52 = real_of_int (2 ^ 52)" by simp
    ultimately have "real_of_int (2 ^ 52) \<le> z \<or> z \<le> real_of_int (- (2 ^ 52))"
      by linarith
    then have "2 ^ 52 \<le> M \<or> M \<le> - (2 ^ 52)"
      unfolding M_def z_def using round_even_ge round_even_le by blast
    then have "2 ^ 52 \<le> \<bar>M\<bar>" by linarith
    then have "real_of_int (2 ^ 52) \<le> real_of_int \<bar>M\<bar>" by (simp only: of_int_le_iff)
    then have "(2::real) powi 52 \<le> real_of_int \<bar>M\<bar>" by simp
    then have "(2::real) powi 52 * 2 powi e \<le> real_of_int \<bar>M\<bar> * 2 powi e"
      by (rule mult_right_mono) simp
    then have ge: "(2::real) powi (52 + e) \<le> \<bar>y\<bar>"
      by (simp only: ay two_powi_add)
    have "(2::real) powi e / 2 = 2 powi e / 2 powi 1" by simp
    also have "\<dots> = 2 powi (e - 1)" by (rule two_powi_diff [symmetric])
    also have "e - 1 = - 53 + (52 + e)" by simp
    also have "(2::real) powi (- 53 + (52 + e)) = 2 powi (- 53) * 2 powi (52 + e)"
      by (rule two_powi_add)
    also have "\<dots> \<le> 2 powi (- 53) * \<bar>y\<bar>"
      using ge by (intro mult_left_mono) simp_all
    finally have "2 powi ulp_exp x / 2 \<le> 2 powi (- 53) * \<bar>y\<bar>"
      by (simp only: e_def)
    then show ?thesis
      using rnd_half_ulp [OF assms False] nn by linarith
  qed
qed

text \<open>What is not too big is rounded to a finite value.\<close>

lemma rnd_finite:
  assumes "\<bar>x\<bar> < 2 powi 1023"
  shows "\<exists>y. rnd x = Fin y"
proof (cases "x = 0")
  case True
  then show ?thesis by simp
next
  case False
  define e where "e = ulp_exp x"
  define M where "M = round_even (x / 2 powi e)"
  define z where "z = x / 2 powi e"
  have "\<lfloor>log 2 \<bar>x\<bar>\<rfloor> < 1023"
    using False assms by (rule floor_log2_less)
  then have e: "e \<le> 970" by (simp add: e_def ulp_exp_def)
  have "\<bar>z\<bar> < 2 powi 53"
    unfolding z_def e_def by (rule scaled_bound [OF False])
  moreover have "(2::real) powi 53 = real_of_int (2 ^ 53)" by simp
  ultimately have "z \<le> real_of_int (2 ^ 53)" "real_of_int (- (2 ^ 53)) \<le> z"
    by linarith+
  then have "M \<le> 2 ^ 53" "- (2 ^ 53) \<le> M"
    unfolding M_def z_def using round_even_le round_even_ge by blast+
  then have "\<bar>M\<bar> \<le> 2 ^ 53" by linarith
  then have "real_of_int \<bar>M\<bar> \<le> real_of_int (2 ^ 53)" by (simp only: of_int_le_iff)
  then have "real_of_int \<bar>M\<bar> \<le> 2 powi 53" by simp
  moreover have "(2::real) powi e \<le> 2 powi 970"
    using e by (rule iffD2 [OF two_powi_le_iff])
  ultimately have "real_of_int \<bar>M\<bar> * 2 powi e \<le> 2 powi 53 * 2 powi 970"
    by (intro mult_mono) simp_all
  also have "(2::real) powi 53 * 2 powi 970 = 2 powi (53 + 970)"
    by (rule two_powi_add [symmetric])
  also have "\<dots> < 2 powi 1024"
    by (rule iffD2 [OF two_powi_less_iff]) simp
  finally have "\<bar>real_of_int M * 2 powi e\<bar> < dbl_overflow"
    by (simp add: abs_mult dbl_overflow_powi del: power_int_numeral)
  then show ?thesis
    using False by (simp add: rnd_def Let_def M_def e_def)
qed

section \<open>The square root of a square\<close>

text \<open>
  In radix 2 the rounded square root of the rounded square of a double is the absolute
  value of that double, as long as the square neither overflows nor underflows. The proof
  is on the mantissa \<open>m\<close> of the double, an integer of exactly 53 bits: the square
  \<open>m * m\<close> is rounded to 53 bits, and the root of the result is within a half of \<open>m\<close>.
\<close>

text \<open>The square root of a rounded square, on mantissas.\<close>

lemma sqrt_near:
  fixes v m d :: real
  assumes "0 \<le> v" "0 < m" "\<bar>v\<^sup>2 - m\<^sup>2\<bar> \<le> d" "2 * d < v + m"
  shows "\<bar>v - m\<bar> < 1 / 2"
proof -
  have "\<bar>v - m\<bar> * (v + m) = \<bar>(v - m) * (v + m)\<bar>"
    using assms(1,2) by (simp add: abs_mult)
  also have "(v - m) * (v + m) = v\<^sup>2 - m\<^sup>2"
    by (simp add: power2_eq_square algebra_simps)
  finally have "\<bar>v - m\<bar> * (v + m) \<le> d" using assms(3) by simp
  moreover have "1 / 2 * (v + m) \<le> \<bar>v - m\<bar> * (v + m)" if "1 / 2 \<le> \<bar>v - m\<bar>"
    using that assms(1,2) by (intro mult_right_mono) simp_all
  ultimately show ?thesis using assms(4) by fastforce
qed

lemma abs_scale:
  fixes a b c :: real
  assumes "0 < c"
  shows "\<bar>a - b / c\<bar> * c = \<bar>a * c - b\<bar>"
proof -
  have "\<bar>a - b / c\<bar> * c = \<bar>(a - b / c) * c\<bar>"
    using assms by (simp add: abs_mult)
  also have "(a - b / c) * c = a * c - b"
    using assms by (simp add: algebra_simps)
  finally show ?thesis .
qed

lemma scaled_round_error:
  fixes b c :: real
  assumes "0 < c"
  shows "\<bar>real_of_int (round_even (b / c)) * c - b\<bar> \<le> c / 2"
proof -
  have "\<bar>real_of_int (round_even (b / c)) - b / c\<bar> \<le> 1 / 2"
    by (rule round_even_error)
  then have "\<bar>real_of_int (round_even (b / c)) - b / c\<bar> * c \<le> 1 / 2 * c"
    using assms by (intro mult_right_mono) simp_all
  then show ?thesis
    unfolding abs_scale [OF assms] by simp
qed

lemma mantissa_sqrt_low:
  fixes m :: int
  assumes m: "2 ^ 52 \<le> m" "m < 2 ^ 53"
  defines "Y \<equiv> round_even (real_of_int (m * m) / 2 ^ 52)"
  defines "v \<equiv> sqrt (real_of_int Y * 2 ^ 52)"
  shows "round_even v = m" and "2 ^ 52 \<le> v" and "v < 2 ^ 53" and "2 ^ 52 \<le> Y"
proof -
  have mm: "real_of_int (2 ^ 104) \<le> real_of_int (m * m)"
  proof -
    have "(2::int) ^ 52 * 2 ^ 52 \<le> m * m" using m(1) by (intro mult_mono) simp_all
    then show ?thesis by (simp only: of_int_le_iff) simp
  qed
  then have "real_of_int (2 ^ 52) \<le> real_of_int (m * m) / 2 ^ 52"
    by simp
  then show Y: "2 ^ 52 \<le> Y" unfolding Y_def by (rule round_even_ge)
  then have Yr: "(2::real) ^ 52 \<le> real_of_int Y"
    by (metis of_int_le_iff of_int_numeral of_int_power)
  then have "(2::real) ^ 52 * 2 ^ 52 \<le> real_of_int Y * 2 ^ 52"
    by (rule mult_right_mono) simp
  then have "((2::real) ^ 52)\<^sup>2 \<le> real_of_int Y * 2 ^ 52"
    by (simp add: power2_eq_square)
  then have "sqrt (((2::real) ^ 52)\<^sup>2) \<le> v"
    unfolding v_def by (rule real_sqrt_le_mono)
  then show v_low: "2 ^ 52 \<le> v" by simp
  have v2: "v\<^sup>2 = real_of_int Y * 2 ^ 52"
    unfolding v_def using Yr by (intro real_sqrt_pow2) simp
  have "\<bar>real_of_int Y * 2 ^ 52 - real_of_int (m * m)\<bar> \<le> 2 ^ 52 / 2"
    unfolding Y_def by (rule scaled_round_error) simp
  moreover have "real_of_int (m * m) = (real_of_int m)\<^sup>2"
    by (simp add: power2_eq_square)
  ultimately have "\<bar>v\<^sup>2 - (real_of_int m)\<^sup>2\<bar> \<le> 2 ^ 51"
    unfolding v2 by simp
  moreover have mr: "(2::real) ^ 52 \<le> real_of_int m"
    using m(1) by (metis of_int_le_iff of_int_numeral of_int_power)
  ultimately have near: "\<bar>v - real_of_int m\<bar> < 1 / 2"
    using v_low by (intro sqrt_near [where d = "2 ^ 51"]) simp_all
  then show "round_even v = m" by (rule round_even_near)
  have "m \<le> 2 ^ 53 - 1" using m(2) by simp
  then have "real_of_int m \<le> real_of_int (2 ^ 53 - 1)"
    by (simp only: of_int_le_iff)
  moreover have "real_of_int (2 ^ 53 - 1) = 2 ^ 53 - 1" by simp
  ultimately show "v < 2 ^ 53" using near by linarith
qed

lemma mantissa_sqrt_high:
  fixes m :: int
  assumes m: "2 ^ 105 \<le> m * m" "0 < m" "m < 2 ^ 53"
  defines "Y \<equiv> round_even (real_of_int (m * m) / 2 ^ 53)"
  defines "v \<equiv> sqrt (real_of_int Y * 2 ^ 53)"
  shows "round_even v = m" and "2 ^ 52 \<le> v" and "v < 2 ^ 53" and "2 ^ 52 \<le> Y"
proof -
  have "real_of_int (2 ^ 105) \<le> real_of_int (m * m)"
    using m(1) by (simp only: of_int_le_iff)
  then have "real_of_int (2 ^ 52) \<le> real_of_int (m * m) / 2 ^ 53"
    by simp
  then show Y: "2 ^ 52 \<le> Y" unfolding Y_def by (rule round_even_ge)
  then have Yr: "(2::real) ^ 52 \<le> real_of_int Y"
    by (metis of_int_le_iff of_int_numeral of_int_power)
  then have big: "(2::real) ^ 52 * 2 ^ 53 \<le> real_of_int Y * 2 ^ 53"
    by (rule mult_right_mono) simp
  have v2: "v\<^sup>2 = real_of_int Y * 2 ^ 53"
    unfolding v_def using Yr by (intro real_sqrt_pow2) simp
  have "0 \<le> v" unfolding v_def using Yr by simp
  have "(5 * 2 ^ 50)\<^sup>2 < (2::real) ^ 52 * 2 ^ 53" by simp
  then have "(5 * 2 ^ 50)\<^sup>2 < v\<^sup>2" using big v2 by linarith
  then have v_low: "5 * 2 ^ 50 < v"
    using \<open>0 \<le> v\<close> by (rule power2_less_imp_less)
  then show "2 ^ 52 \<le> v" by simp
  have m2: "real_of_int (m * m) = (real_of_int m)\<^sup>2"
    by (simp add: power2_eq_square)
  have "(5 * 2 ^ 50)\<^sup>2 < real_of_int (2 ^ 105)" by simp
  then have "(5 * 2 ^ 50)\<^sup>2 < (real_of_int m)\<^sup>2"
    using \<open>real_of_int (2 ^ 105) \<le> real_of_int (m * m)\<close> unfolding m2 by linarith
  moreover have "0 \<le> real_of_int m" using m(2) by simp
  ultimately have m_low: "5 * 2 ^ 50 < real_of_int m"
    by (rule power2_less_imp_less)
  have "\<bar>real_of_int Y * 2 ^ 53 - real_of_int (m * m)\<bar> \<le> 2 ^ 53 / 2"
    unfolding Y_def by (rule scaled_round_error) simp
  then have "\<bar>v\<^sup>2 - (real_of_int m)\<^sup>2\<bar> \<le> 2 ^ 52"
    unfolding v2 m2 by simp
  moreover have "2 * 2 ^ 52 < v + real_of_int m"
    using v_low m_low by simp
  moreover have "0 < real_of_int m" using m(2) by simp
  ultimately have near: "\<bar>v - real_of_int m\<bar> < 1 / 2"
    using \<open>0 \<le> v\<close> by (intro sqrt_near [where d = "2 ^ 52"])
  then show "round_even v = m" by (rule round_even_near)
  have "m \<le> 2 ^ 53 - 1" using m(3) by simp
  then have "real_of_int m \<le> real_of_int (2 ^ 53 - 1)"
    by (simp only: of_int_le_iff)
  moreover have "real_of_int (2 ^ 53 - 1) = 2 ^ 53 - 1" by simp
  ultimately show "v < 2 ^ 53" using near by linarith
qed

lemma rnd_normal_eval:
  assumes "2 powi (52 + e) \<le> \<bar>x\<bar>" "\<bar>x\<bar> < 2 powi (53 + e)" "- 1074 \<le> e"
    and "\<bar>real_of_int (round_even (x / 2 powi e)) * 2 powi e\<bar> < 2 powi 1024"
  shows "rnd x = Fin (real_of_int (round_even (x / 2 powi e)) * 2 powi e)"
proof -
  have "\<bar>x\<bar> < 2 powi (52 + e + 1)"
    using assms(2) by (simp add: add.commute add.left_commute)
  from rnd_eval [OF assms(1) this] assms(3,4) show ?thesis
    by (simp add: Let_def dbl_overflow_powi max_def del: power_int_numeral)
qed

lemma sqrt_square_scaled:
  fixes m Y :: int and e :: int and c :: nat and x :: real
  assumes x: "x = real_of_int m * 2 powi e"
    and e: "- 552 \<le> e" "e \<le> 448"
    and c: "52 \<le> c" "c \<le> 53"
    and m: "0 < m" "m < 2 ^ 53"
    and mm: "2 ^ (52 + c) \<le> m * m" "m * m < 2 ^ (53 + c)"
    and Y: "Y = round_even (real_of_int (m * m) / 2 ^ c)"
    and core: "round_even (sqrt (real_of_int Y * 2 ^ c)) = m"
      "2 ^ 52 \<le> sqrt (real_of_int Y * 2 ^ c)" "sqrt (real_of_int Y * 2 ^ c) < 2 ^ 53"
      "2 ^ 52 \<le> Y"
  shows "dsqrt (rnd (x\<^sup>2)) = Fin x"
proof -
  define s :: real where "s = 2 powi e"
  define E where "E = int c + (e + e)"
  define v where "v = sqrt (real_of_int Y * 2 ^ c)"
  have s: "0 < s" by (simp add: s_def)
  have ss: "s * s = 2 powi (e + e)" unfolding s_def by (rule two_powi_add [symmetric])
  have pE: "2 powi E = 2 ^ c * (s * s)"
    unfolding E_def ss by (simp only: two_powi_add power_int_of_nat)
  have pEpos: "(0::real) < 2 powi E" by simp
  have x2: "x\<^sup>2 = real_of_int (m * m) * (s * s)"
    by (simp add: x s_def power2_eq_square algebra_simps)
  have E_low: "- 1074 \<le> E" using e c by (simp add: E_def)
  have E_up: "E \<le> 949" using e c by (simp add: E_def)
  have scaled: "x\<^sup>2 / 2 powi E = real_of_int (m * m) / 2 ^ c"
    unfolding x2 pE using s by simp
  have lo: "2 powi (52 + E) \<le> \<bar>x\<^sup>2\<bar>"
  proof -
    have "real_of_int (2 ^ (52 + c)) \<le> real_of_int (m * m)"
      using mm(1) by (simp only: of_int_le_iff)
    then have "real_of_int (2 ^ (52 + c)) * (s * s) \<le> real_of_int (m * m) * (s * s)"
      using s by (intro mult_right_mono) simp_all
    moreover have "2 powi (52 + E) = real_of_int (2 ^ (52 + c)) * (s * s)"
      unfolding two_powi_add pE by (simp add: power_add)
    ultimately show ?thesis unfolding x2 by simp
  qed
  have hi: "\<bar>x\<^sup>2\<bar> < 2 powi (53 + E)"
  proof -
    have "real_of_int (m * m) < real_of_int (2 ^ (53 + c))"
      using mm(2) by (simp only: of_int_less_iff)
    then have "real_of_int (m * m) * (s * s) < real_of_int (2 ^ (53 + c)) * (s * s)"
      using s by (intro mult_strict_right_mono) simp_all
    moreover have "2 powi (53 + E) = real_of_int (2 ^ (53 + c)) * (s * s)"
      unfolding two_powi_add pE by (simp add: power_add)
    moreover have "0 \<le> real_of_int (m * m) * (s * s)"
      using m(1) s by simp
    ultimately show ?thesis unfolding x2 by simp
  qed
  define y where "y = real_of_int Y * 2 powi E"
  have Ypos: "0 < real_of_int Y" using core(4) by (simp add: less_le_trans [of 0 "2 ^ 52"])
  have v2: "v\<^sup>2 = real_of_int Y * 2 ^ c"
    unfolding v_def using Ypos by (intro real_sqrt_pow2) simp
  have vpos: "0 < v" using core(2) unfolding v_def [symmetric] by (simp add: less_le_trans [of 0 "2 ^ 52"])
  have y_vs: "y = (v * s)\<^sup>2"
  proof -
    have "(v * s)\<^sup>2 = v\<^sup>2 * (s * s)"
      by (simp add: power_mult_distrib power2_eq_square)
    also have "\<dots> = real_of_int Y * 2 ^ c * (s * s)" by (simp only: v2)
    finally show ?thesis unfolding y_def pE by (simp add: mult.assoc)
  qed
  have sqrt_y: "sqrt y = v * s"
    unfolding y_vs using vpos s by simp
  have vs_lo: "2 powi (52 + e) \<le> \<bar>v * s\<bar>"
  proof -
    have "2 ^ 52 * s \<le> v * s"
      using core(2) s unfolding v_def [symmetric] by (intro mult_right_mono) simp_all
    moreover have "2 powi (52 + e) = 2 ^ 52 * s"
      unfolding s_def two_powi_add by simp
    ultimately show ?thesis using vpos s by simp
  qed
  have vs_hi: "\<bar>v * s\<bar> < 2 powi (53 + e)"
  proof -
    have "v * s < 2 ^ 53 * s"
      using core(3) s unfolding v_def [symmetric] by (intro mult_strict_right_mono) simp_all
    moreover have "2 powi (53 + e) = 2 ^ 53 * s"
      unfolding s_def two_powi_add by simp
    ultimately show ?thesis using vpos s by simp
  qed
  have y_fin: "\<bar>y\<bar> < 2 powi 1024"
  proof -
    have "y = (v * s) * (v * s)" by (simp add: y_vs power2_eq_square)
    moreover have "(v * s) * (v * s) < 2 powi (53 + e) * 2 powi (53 + e)"
      using vs_hi vpos s by (intro mult_strict_mono) simp_all
    moreover have "(2::real) powi (53 + e) * 2 powi (53 + e) = 2 powi ((53 + e) + (53 + e))"
      by (rule two_powi_add [symmetric])
    moreover have "(2::real) powi ((53 + e) + (53 + e)) \<le> 2 powi 1024"
      using e by (intro iffD2 [OF two_powi_le_iff]) simp
    moreover have "0 \<le> y" using Ypos by (simp add: y_def)
    ultimately show ?thesis by linarith
  qed
  have rnd_sq: "rnd (x\<^sup>2) = Fin y"
  proof -
    have "real_of_int (round_even (x\<^sup>2 / 2 powi E)) * 2 powi E = y"
      unfolding scaled Y [symmetric] y_def ..
    then show ?thesis
      using rnd_normal_eval [OF lo hi E_low] y_fin by simp
  qed
  have e_low: "- 1074 \<le> e" using e by simp
  have "(v * s) / 2 powi e = v" using s by (simp add: s_def)
  then have rt: "real_of_int (round_even ((v * s) / 2 powi e)) * 2 powi e = x"
    using core(1) by (simp add: v_def x)
  have x_fin: "\<bar>x\<bar> < 2 powi 1024"
  proof -
    have "x = real_of_int m * s" by (simp add: x s_def)
    moreover have "real_of_int m < 2 ^ 53" using m(2) by (metis of_int_less_iff of_int_numeral of_int_power)
    then have "real_of_int m * s < 2 ^ 53 * s" using s by (intro mult_strict_right_mono)
    moreover have "2 powi (53 + e) = 2 ^ 53 * s"
      unfolding s_def two_powi_add by simp
    moreover have "(2::real) powi (53 + e) \<le> 2 powi 1024"
      using e by (intro iffD2 [OF two_powi_le_iff]) simp
    moreover have "0 \<le> real_of_int m * s" using m(1) s by simp
    ultimately show ?thesis by linarith
  qed
  have "rnd (v * s) = Fin x"
    using rnd_normal_eval [OF vs_lo vs_hi e_low] rt x_fin by simp
  moreover have "0 \<le> y" using Ypos by (simp add: y_def)
  ultimately show ?thesis
    by (simp add: rnd_sq sqrt_y)
qed

lemma normal_mantissa:
  assumes "is_double x" "2 powi (- 1022) \<le> \<bar>x\<bar>"
  obtains m :: int where "\<bar>x\<bar> = real_of_int m * 2 powi (\<lfloor>log 2 \<bar>x\<bar>\<rfloor> - 52)"
    and "2 ^ 52 \<le> m" and "m < 2 ^ 53"
proof -
  define a where "a = \<bar>x\<bar>"
  define u where "u = \<lfloor>log 2 a\<rfloor> - 52"
  have apos: "0 < a"
    using assms(2) two_powi_pos [of "- 1022"] unfolding a_def by linarith
  then have a0: "a \<noteq> 0" and aa: "\<bar>a\<bar> = a" by simp_all
  have "2 powi (- 1022) \<le> \<bar>a\<bar>" using assms(2) by (simp add: a_def)
  then have "- 1022 \<le> \<lfloor>log 2 \<bar>a\<bar>\<rfloor>" by (rule floor_log2_ge)
  then have k: "- 1074 \<le> \<lfloor>log 2 \<bar>a\<bar>\<rfloor> - 52" by linarith
  then have u: "ulp_exp a = u" by (simp add: ulp_exp_def u_def aa)
  define M where "M = round_even (a / 2 powi u)"
  have "rnd a = Fin a" using assms(1) by (intro rnd_double) (simp add: a_def)
  from rnd_Fin_eq(1) [OF this a0] have a_eq: "a = real_of_int M * 2 powi u"
    by (simp only: u M_def)
  then have sc: "a / 2 powi u = real_of_int M" by simp
  have "2 powi 52 \<le> \<bar>a / 2 powi ulp_exp a\<bar>" using a0 k by (rule scaled_normal)
  then have "(2::real) powi 52 \<le> \<bar>real_of_int M\<bar>" by (simp only: u sc)
  moreover have "\<bar>a / 2 powi ulp_exp a\<bar> < 2 powi 53" using a0 by (rule scaled_bound)
  then have "\<bar>real_of_int M\<bar> < 2 powi 53" by (simp only: u sc)
  moreover have "0 \<le> real_of_int M"
  proof -
    have "0 \<le> a / 2 powi u" using apos by simp
    then show ?thesis by (simp only: sc)
  qed
  ultimately have "real_of_int (2 ^ 52) \<le> real_of_int M" "real_of_int M < real_of_int (2 ^ 53)"
    by simp_all
  then have "2 ^ 52 \<le> M" "M < 2 ^ 53" by (simp_all only: of_int_le_iff of_int_less_iff)
  moreover have "\<bar>x\<bar> = real_of_int M * 2 powi (\<lfloor>log 2 \<bar>x\<bar>\<rfloor> - 52)"
    using a_eq by (simp add: a_def u_def)
  ultimately show thesis using that by blast
qed

lemma dsqrt_square:
  assumes "is_double x" "2 powi (- 500) \<le> \<bar>x\<bar>" "\<bar>x\<bar> \<le> 2 powi 500"
  shows "dsqrt (rnd (x\<^sup>2)) = Fin \<bar>x\<bar>"
proof -
  define e where "e = \<lfloor>log 2 \<bar>x\<bar>\<rfloor> - 52"
  have "(2::real) powi (- 1022) \<le> 2 powi (- 500)"
    by (intro iffD2 [OF two_powi_le_iff]) simp
  then have "2 powi (- 1022) \<le> \<bar>x\<bar>" using assms(2) by linarith
  from normal_mantissa [OF assms(1) this] obtain m :: int
    where x: "\<bar>x\<bar> = real_of_int m * 2 powi e" and m: "2 ^ 52 \<le> m" "m < 2 ^ 53"
    unfolding e_def by blast
  have mpos: "0 < m" using m(1) by (simp add: less_le_trans [of 0 "2 ^ 52"])
  have x0: "x \<noteq> 0" using assms(2) two_powi_pos [of "- 500"] by auto
  have "- 500 \<le> \<lfloor>log 2 \<bar>x\<bar>\<rfloor>" using assms(2) by (rule floor_log2_ge)
  then have e1: "- 552 \<le> e" unfolding e_def by linarith
  have "(2::real) powi 500 < 2 powi 501"
    by (intro iffD2 [OF two_powi_less_iff]) simp
  then have "\<bar>x\<bar> < 2 powi 501" using assms(3) by linarith
  with x0 have "\<lfloor>log 2 \<bar>x\<bar>\<rfloor> < 501" by (rule floor_log2_less)
  then have e2: "e \<le> 448" unfolding e_def by linarith
  have sq: "x\<^sup>2 = \<bar>x\<bar>\<^sup>2" by simp
  have mm_lo: "(2::int) ^ 104 \<le> m * m"
  proof -
    have "(2::int) ^ 52 * 2 ^ 52 \<le> m * m" using m(1) by (intro mult_mono) simp_all
    then show ?thesis by simp
  qed
  have mm_hi: "m * m < (2::int) ^ 106"
  proof -
    have "m * m < 2 ^ 53 * 2 ^ 53" using m(2) mpos by (intro mult_strict_mono) simp_all
    then show ?thesis by simp
  qed
  show ?thesis
  proof (cases "m * m < 2 ^ 105")
    case True
    have "dsqrt (rnd (\<bar>x\<bar>\<^sup>2)) = Fin \<bar>x\<bar>"
    proof (rule sqrt_square_scaled [where c = 52, OF x e1 e2 _ _ mpos m(2) _ _ refl])
      show "(52::nat) \<le> 52" "(52::nat) \<le> 53" by simp_all
      show "2 ^ (52 + 52) \<le> m * m" using mm_lo by simp
      show "m * m < 2 ^ (53 + 52)" using True by simp
    qed (rule mantissa_sqrt_low [OF m])+
    then show ?thesis by (simp only: sq)
  next
    case False
    then have hi: "2 ^ 105 \<le> m * m" by simp
    have "dsqrt (rnd (\<bar>x\<bar>\<^sup>2)) = Fin \<bar>x\<bar>"
    proof (rule sqrt_square_scaled [where c = 53, OF x e1 e2 _ _ mpos m(2) _ _ refl])
      show "(52::nat) \<le> 53" "(53::nat) \<le> 53" by simp_all
      show "2 ^ (52 + 53) \<le> m * m" using hi by simp
      show "m * m < 2 ^ (53 + 53)" using mm_hi by simp
    qed (rule mantissa_sqrt_high [OF hi mpos m(2)])+
    then show ?thesis by (simp only: sq)
  qed
qed

section \<open>Facts about the arithmetic\<close>

lemma at'_simps [simp]:
  "at' (x # xs) 0 = Some x"
  "at' (x # y # xs) 1 = Some y"
  "at' (x # y # xs) (Suc 0) = Some y"
  "at' [] i = None"
  "at' [x] 1 = None"
  "at' [x] (Suc 0) = None"
  by (simp_all add: at'_def)

lemma two_coords: "2 \<le> length p \<Longrightarrow> \<exists>x y r. p = x # y # r"
  by (cases p; cases "tl p") auto

lemma dsub_Fin [simp]: "dsub (Fin x) (Fin y) = rnd (x - y)"
  by (simp add: dsub_def)

lemma dpow_Fin_2 [simp]: "dpow (Fin x) (Fin 2) = rnd (x\<^sup>2)"
proof -
  have "x < 0 \<Longrightarrow> x powi \<lfloor>2::real\<rfloor> = x\<^sup>2"
    by (simp add: power_int_def)
  then show ?thesis
    by (auto simp: dpow_def)
qed

text \<open>
  A value that is not finite stays so through sums, differences and products, and every
  quotient by zero is not finite. (A finite sum of finite values need not be finite:
  it may overflow.)
\<close>

lemma isfinite_dneg [simp]: "isfinite (dneg x) = isfinite x"
  by (cases x) simp_all

lemma isfinite_signed_inf [simp]: "\<not> isfinite (signed_inf x)"
  by (simp add: signed_inf_def)

lemma isfinite_daddD: "isfinite (dadd x y) \<Longrightarrow> isfinite x \<and> isfinite y"
  by (cases x; cases y) simp_all

lemma isfinite_dsubD: "isfinite (dsub x y) \<Longrightarrow> isfinite x \<and> isfinite y"
  unfolding dsub_def by (drule isfinite_daddD) simp

lemma isfinite_dmulD: "isfinite (dmul x y) \<Longrightarrow> isfinite x \<and> isfinite y"
  by (cases x; cases y) simp_all

lemma not_finite_dadd [simp]:
  "\<not> isfinite x \<Longrightarrow> isfinite (dadd x y) = False"
  "\<not> isfinite y \<Longrightarrow> isfinite (dadd x y) = False"
  using isfinite_daddD by blast+

lemma not_finite_dsub [simp]:
  "\<not> isfinite x \<Longrightarrow> isfinite (dsub x y) = False"
  "\<not> isfinite y \<Longrightarrow> isfinite (dsub x y) = False"
  using isfinite_dsubD by blast+

lemma not_finite_dmul [simp]:
  "\<not> isfinite x \<Longrightarrow> isfinite (dmul x y) = False"
  "\<not> isfinite y \<Longrightarrow> isfinite (dmul x y) = False"
  using isfinite_dmulD by blast+

lemma isfinite_ddiv_zero [simp]: "\<not> isfinite (ddiv x (Fin 0))"
  by (cases x) simp_all

lemma NaN_absorbs [simp]:
  "dadd x NaN = NaN" "dsub x NaN = NaN" "dsub NaN x = NaN" "dmul x NaN = NaN" "ddiv x NaN = NaN"
  by (cases x; simp add: dsub_def)+

lemma dpow_zero_pos [simp]: "0 < al \<Longrightarrow> dpow (Fin 0) (Fin al) = Fin 0"
  by (simp add: dpow_def)

lemma dpow_Fin_1 [simp]: "dpow (Fin 1) e = Fin 1"
  by (simp add: dpow_def)

section \<open>The distance function\<close>

lemma distance_Fin:
  "distance (Fin x0 # r0) (Fin x1 # Fin y1 # r1)
     = Some (dsqrt (dadd (dpow (dsub (Fin x1) (Fin x0)) (Fin 2)) (Fin 0)))"
  by (simp add: distance_def getMagnitude_def)

lemma distance_same_x: "distance (Fin x # r0) (Fin x # Fin y1 # r1) = Some (Fin 0)"
  by (simp add: distance_Fin)

section \<open>The coefficients of a segment\<close>

lemma knotSpacing_same_x:
  "0 < al \<Longrightarrow> knotSpacing (Fin al) (Fin x # r0) (Fin x # Fin y1 # r1) = Some (Fin 0)"
  by (simp add: knotSpacing_def distance_same_x)

lemma knotSpacing_wf:
  "\<exists>t. knotSpacing alpha (x0 # r0) (x1 # y1 # r1) = Some t"
  by (simp add: knotSpacing_def distance_def getMagnitude_def)

lemma calcCoefficients_first_knot_zero:
  assumes "knotSpacing alpha (x0 # y0 # r0) (x1 # y1 # r1) = Some (Fin 0)"
  shows "\<exists>seg. calcCoefficients alpha tension (x0 # y0 # r0) (x1 # y1 # r1)
           (x2 # y2 # r2) (x3 # y3 # r3) = Some seg
     \<and> \<not> isfinite (a seg ! 0) \<and> \<not> isfinite (a seg ! 1)
     \<and> \<not> isfinite (b seg ! 0) \<and> \<not> isfinite (b seg ! 1)
     \<and> \<not> isfinite (c seg ! 0) \<and> \<not> isfinite (c seg ! 1)
     \<and> d seg = [x1, y1]"
proof -
  obtain t12 where t12: "knotSpacing alpha (x1 # y1 # r1) (x2 # y2 # r2) = Some t12"
    using knotSpacing_wf by blast
  obtain t23 where t23: "knotSpacing alpha (x2 # y2 # r2) (x3 # y3 # r3) = Some t23"
    using knotSpacing_wf by blast
  show ?thesis
    unfolding calcCoefficients_def by (simp add: assms t12 t23 Let_def)
qed

lemma calcCoefficients_last_knot_zero:
  assumes "knotSpacing alpha (x2 # y2 # r2) (x3 # y3 # r3) = Some (Fin 0)"
  shows "\<exists>seg. calcCoefficients alpha tension (x0 # y0 # r0) (x1 # y1 # r1)
           (x2 # y2 # r2) (x3 # y3 # r3) = Some seg
     \<and> \<not> isfinite (a seg ! 0) \<and> \<not> isfinite (a seg ! 1)
     \<and> \<not> isfinite (b seg ! 0) \<and> \<not> isfinite (b seg ! 1)
     \<and> d seg = [x1, y1]"
proof -
  obtain t12 where t12: "knotSpacing alpha (x1 # y1 # r1) (x2 # y2 # r2) = Some t12"
    using knotSpacing_wf by blast
  obtain t01 where t01: "knotSpacing alpha (x0 # y0 # r0) (x1 # y1 # r1) = Some t01"
    using knotSpacing_wf by blast
  show ?thesis
    unfolding calcCoefficients_def by (simp add: assms t12 t01 Let_def)
qed

lemma calc_coincident:
  assumes "0 < al"
  shows "calcCoefficients (Fin al) tension [Fin x, Fin y] [Fin x, Fin y]
           (x2 # y2 # r2) (x3 # y3 # r3) 
     = Some \<lparr>a = [NaN, NaN], b = [NaN, NaN], c = [NaN, NaN], d = [Fin x, Fin y]\<rparr>"
proof -
  obtain t12 where t12: "knotSpacing (Fin al) [Fin x, Fin y] (x2 # y2 # r2) = Some t12"
    using knotSpacing_wf by blast
  obtain t23 where t23: "knotSpacing (Fin al) (x2 # y2 # r2) (x3 # y3 # r3) = Some t23"
    using knotSpacing_wf by blast
  have [simp]: "signed_inf 0 = NaN" by (simp add: signed_inf_def)
  have [simp]: "\<And>x. dadd NaN x = NaN" "\<And>x. dmul NaN x = NaN" by simp_all
  show ?thesis
    unfolding calcCoefficients_def by (simp add: assms t12 t23 knotSpacing_same_x Let_def)
qed

lemma calcCoefficients_last_coincident:
  assumes "0 < al"
  shows "\<exists>cc. calcCoefficients (Fin al) tension (x0 # y0 # r0) (x1 # y1 # r1)
           [Fin x, Fin y] [Fin x, Fin y]
     = Some \<lparr>a = [NaN, NaN], b = [NaN, NaN], c = cc, d = [x1, y1]\<rparr>"
proof -
  obtain t12 where t12: "knotSpacing (Fin al) (x1 # y1 # r1) [Fin x, Fin y] = Some t12"
    using knotSpacing_wf by blast
  obtain t01 where t01: "knotSpacing (Fin al) (x0 # y0 # r0) (x1 # y1 # r1) = Some t01"
    using knotSpacing_wf by blast
  have [simp]: "signed_inf 0 = NaN" by (simp add: signed_inf_def)
  have [simp]: "\<And>x. dadd NaN x = NaN" "\<And>x. dmul NaN x = NaN" by simp_all
  show ?thesis
    unfolding calcCoefficients_def by (simp add: assms t12 t01 knotSpacing_same_x Let_def)
qed

lemma calcCoefficients_wf:
  assumes "2 \<le> length p0" "2 \<le> length p1" "2 \<le> length p2" "2 \<le> length p3"
  shows "\<exists>seg. calcCoefficients alpha tension p0 p1 p2 p3 = Some seg
    \<and> length (a seg) = 2 \<and> length (b seg) = 2 \<and> length (c seg) = 2 \<and> d seg = take 2 p1"
proof -
  obtain x0 y0 r0 x1 y1 r1 x2 y2 r2 x3 y3 r3
    where p: "p0 = x0 # y0 # r0" "p1 = x1 # y1 # r1" "p2 = x2 # y2 # r2" "p3 = x3 # y3 # r3"
    using assms two_coords by metis
  obtain t01 t12 t23 where
    "knotSpacing alpha (x0 # y0 # r0) (x1 # y1 # r1) = Some t01"
    "knotSpacing alpha (x1 # y1 # r1) (x2 # y2 # r2) = Some t12"
    "knotSpacing alpha (x2 # y2 # r2) (x3 # y3 # r3) = Some t23"
    using knotSpacing_wf by metis
  then show ?thesis
    unfolding p calcCoefficients_def by (simp add: Let_def)
qed

text \<open>
  Claim C10. For an exponent \<open>alpha > 0\<close>, when the first two or the last two of the
  four points have the same x-coordinate, whatever their y-coordinates (so also for
  distinct points), the knot spacing of that pair is zero, \<^verbatim>\<open>calcCoefficients\<close>
  divides by it and returns, without an error, a segment whose coefficients \<open>a\<close> and
  \<open>b\<close> are not finite in either coordinate.
\<close>

theorem division_by_zero_reachable:
  assumes "0 < al"
    and "x0 = x1 \<or> x2 = x3"
  shows "\<exists>seg. calcCoefficients (Fin al) tension [Fin x0, Fin y0] [Fin x1, Fin y1]
        [Fin x2, Fin y2] [Fin x3, Fin y3] = Some seg
    \<and> (knotSpacing (Fin al) [Fin x0, Fin y0] [Fin x1, Fin y1] = Some (Fin 0)
       \<or> knotSpacing (Fin al) [Fin x2, Fin y2] [Fin x3, Fin y3] = Some (Fin 0))
    \<and> \<not> isfinite (a seg ! 0) \<and> \<not> isfinite (a seg ! 1)
    \<and> \<not> isfinite (b seg ! 0) \<and> \<not> isfinite (b seg ! 1)"
  using assms(2)
proof
  assume "x0 = x1"
  then have k: "knotSpacing (Fin al) [Fin x0, Fin y0] [Fin x1, Fin y1] = Some (Fin 0)"
    using assms(1) by (simp add: knotSpacing_same_x)
  from calcCoefficients_first_knot_zero [OF k] k show ?thesis
    by blast
next
  assume "x2 = x3"
  then have k: "knotSpacing (Fin al) [Fin x2, Fin y2] [Fin x3, Fin y3] = Some (Fin 0)"
    using assms(1) by (simp add: knotSpacing_same_x)
  from calcCoefficients_last_knot_zero [OF k] k show ?thesis
    by blast
qed

theorem division_by_zero_reachable_witness:
  "[Fin 5, Fin 0] \<noteq> [Fin 5, Fin 3]
   \<and> (\<exists>seg. calcCoefficients (Fin 0.75) (Fin 0) [Fin 5, Fin 0] [Fin 5, Fin 3]
        [Fin 7, Fin 1] [Fin 9, Fin 2] = Some seg
    \<and> knotSpacing (Fin 0.75) [Fin 5, Fin 0] [Fin 5, Fin 3] = Some (Fin 0)
    \<and> \<not> isfinite (a seg ! 0) \<and> \<not> isfinite (a seg ! 1)
    \<and> \<not> isfinite (b seg ! 0) \<and> \<not> isfinite (b seg ! 1))"
  using division_by_zero_reachable [of "0.75" 5 5 7 9 "Fin 0" 0 3 1 2]
  by (auto simp: knotSpacing_same_x)

text \<open>
  Claim C6, as the code has it. The code has no check of the knot spacings. For an
  exponent \<open>alpha > 0\<close>, when the first two or the last two of the four points
  coincide, \<^verbatim>\<open>calcCoefficients\<close> throws nothing: it divides zero by zero and
  returns a segment whose coefficients \<open>a\<close> and \<open>b\<close> are NaN in both coordinates.
\<close>

theorem coincident_points_give_NaN:
  assumes "0 < al"
    and "(x0 = x1 \<and> y0 = y1) \<or> (x2 = x3 \<and> y2 = y3)"
  shows "\<exists>cc. calcCoefficients (Fin al) tension [Fin x0, Fin y0] [Fin x1, Fin y1]
        [Fin x2, Fin y2] [Fin x3, Fin y3]
      = Some \<lparr>a = [NaN, NaN], b = [NaN, NaN], c = cc, d = [Fin x1, Fin y1]\<rparr>"
  using assms(2)
proof
  assume "x0 = x1 \<and> y0 = y1"
  then show ?thesis
    using calc_coincident [OF assms(1), of tension x1 y1 "Fin x2" "Fin y2" "[]" "Fin x3" "Fin y3" "[]"]
    by auto
next
  assume "x2 = x3 \<and> y2 = y3"
  then show ?thesis
    using calcCoefficients_last_coincident [OF assms(1), of tension "Fin x0" "Fin y0" "[]"
        "Fin x1" "Fin y1" "[]" x3 y3]
    by auto
qed

theorem coincident_points_give_NaN_witness:
  "\<exists>cc. calcCoefficients (Fin 0.75) (Fin 0) [Fin 1, Fin 2] [Fin 1, Fin 2]
        [Fin 3, Fin 4] [Fin 5, Fin 6]
      = Some \<lparr>a = [NaN, NaN], b = [NaN, NaN], c = cc, d = [Fin 1, Fin 2]\<rparr>"
  using coincident_points_give_NaN [of "0.75" 1 1 2 2 3 5 4 6 "Fin 0"]
  by simp

section \<open>The sampling loop\<close>

text \<open>
  The counter's model does what it is meant to do: \<open>nbits n\<close> is the number of bits of
  \<open>n\<close>; rounding leaves a mantissa of at most 53 bits alone, and otherwise drops the
  \<open>k\<close> bits beyond 53 for a nearest multiple of \<open>2 ^ k\<close>, the even one when two are
  equally near; and a sum is the rounded exact sum.
\<close>

declare nbits.simps [simp del]

lemma nbits_upper: "n < 2 ^ nbits n"
proof (induction n rule: nbits.induct)
  case (1 n)
  show ?case
  proof (cases "n = 0")
    case True
    then show ?thesis by simp
  next
    case False
    with 1 have "n div 2 < 2 ^ nbits (n div 2)" by simp
    then have "n < 2 * 2 ^ nbits (n div 2)" by linarith
    with False show ?thesis by (subst nbits.simps) simp
  qed
qed

lemma nbits_lower: "0 < n \<Longrightarrow> 2 ^ (nbits n - 1) \<le> n"
proof (induction n rule: nbits.induct)
  case (1 n)
  show ?case
  proof (cases "n div 2 = 0")
    case True
    with 1(2) have "n = 1" by linarith
    moreover have "nbits 0 = 0" by (subst nbits.simps) simp
    ultimately show ?thesis by (subst nbits.simps) simp
  next
    case False
    then have pos: "0 < n div 2" by simp
    with 1 have "2 ^ (nbits (n div 2) - 1) \<le> n div 2" by simp
    then have "2 * 2 ^ (nbits (n div 2) - 1) \<le> n" by linarith
    moreover have "0 < nbits (n div 2)" using pos by (subst nbits.simps) simp
    then have "2 * 2 ^ (nbits (n div 2) - 1) = (2::nat) ^ nbits (n div 2)"
      by (cases "nbits (n div 2)") simp_all
    moreover have "nbits n - 1 = nbits (n div 2)"
      using 1(2) by (subst nbits.simps) simp
    ultimately show ?thesis by simp
  qed
qed

lemma fp_round_exact: "nbits (nat \<bar>m\<bar>) \<le> 53 \<Longrightarrow> fp_round (Fp m e) = Fp m e"
  by (simp add: Let_def)

lemma fp_round_nearest:
  assumes "53 < nbits (nat \<bar>m\<bar>)"
  shows "\<exists>q. fp_round (Fp m e) = Fp q (e + int (nbits (nat \<bar>m\<bar>) - 53))
    \<and> 2 * \<bar>q * 2 ^ (nbits (nat \<bar>m\<bar>) - 53) - m\<bar> \<le> 2 ^ (nbits (nat \<bar>m\<bar>) - 53)
    \<and> (2 * \<bar>q * 2 ^ (nbits (nat \<bar>m\<bar>) - 53) - m\<bar> = 2 ^ (nbits (nat \<bar>m\<bar>) - 53) \<longrightarrow> even q)"
proof -
  define k where "k = nbits (nat \<bar>m\<bar>) - 53"
  define q where "q = m div 2 ^ k"
  define r where "r = m mod 2 ^ k"
  define h :: int where "h = 2 ^ (k - 1)"
  have k: "0 < k" using assms by (simp add: k_def)
  then have hk: "2 * h = 2 ^ k"
    by (cases k) (simp_all add: h_def)
  have m: "m = q * 2 ^ k + r" unfolding q_def r_def by (rule div_mult_mod_eq [symmetric])
  have r: "0 \<le> r" "r < 2 ^ k" by (simp_all add: r_def)
  have res: "fp_round (Fp m e) =
      Fp (if r < h then q else if h < r then q + 1 else if even q then q else q + 1) (e + int k)"
    using assms by (simp add: Let_def k_def q_def r_def h_def)
  consider "r < h" | "h < r" | "r = h" "even q" | "r = h" "odd q" by fastforce
  then show ?thesis
  proof cases
    case 1
    then have "fp_round (Fp m e) = Fp q (e + int k)" using res by simp
    moreover have "2 * \<bar>q * 2 ^ k - m\<bar> < 2 ^ k" using 1 r hk m by simp
    ultimately show ?thesis unfolding k_def [symmetric] by auto
  next
    case 2
    then have "fp_round (Fp m e) = Fp (q + 1) (e + int k)" using res by simp
    moreover have "(q + 1) * 2 ^ k - m = 2 ^ k - r" using m by (simp add: algebra_simps)
    then have "2 * \<bar>(q + 1) * 2 ^ k - m\<bar> < 2 ^ k" using 2 r hk by simp
    ultimately show ?thesis unfolding k_def [symmetric] by auto
  next
    case 3
    then have "fp_round (Fp m e) = Fp q (e + int k)" using res by simp
    moreover have "2 * \<bar>q * 2 ^ k - m\<bar> = 2 ^ k" using 3 r hk m by simp
    ultimately show ?thesis unfolding k_def [symmetric] using 3 by auto
  next
    case 4
    then have "fp_round (Fp m e) = Fp (q + 1) (e + int k)" using res by simp
    moreover have "(q + 1) * 2 ^ k - m = 2 ^ k - r" using m by (simp add: algebra_simps)
    then have "2 * \<bar>(q + 1) * 2 ^ k - m\<bar> = 2 ^ k" using 4 r hk by simp
    ultimately show ?thesis unfolding k_def [symmetric] using 4 by auto
  qed
qed

text \<open>
  The comparison of two counters is the comparison of their values, and the model's
  \<open>0.1\<close> is within half a unit in the last place (\<open>2 powi (- 57)\<close>) of one tenth.
\<close>

lemma fp_val_align:
  assumes "e \<le> e1"
  shows "fp_val (Fp m1 e1) = of_int (m1 * 2 ^ nat (e1 - e)) * 2 powi e"
proof -
  have "(2::real) powi e1 = 2 powi (e + int (nat (e1 - e)))"
    using assms by simp
  also have "\<dots> = 2 powi e * 2 powi int (nat (e1 - e))"
    by (rule power_int_add) simp
  also have "\<dots> = 2 powi e * 2 ^ nat (e1 - e)"
    by (simp only: power_int_of_nat)
  finally show ?thesis by simp
qed

lemma fp_le_iff: "fp_le s t \<longleftrightarrow> fp_val s \<le> fp_val t"
proof (cases s; cases t)
  fix m1 e1 m2 e2
  assume st: "s = Fp m1 e1" "t = Fp m2 e2"
  define e where "e = min e1 e2"
  have e: "e \<le> e1" "e \<le> e2" by (simp_all add: e_def)
  have pos: "(0::real) < 2 powi e" by simp
  have "fp_val s \<le> fp_val t \<longleftrightarrow>
      real_of_int (m1 * 2 ^ nat (e1 - e)) * 2 powi e \<le> real_of_int (m2 * 2 ^ nat (e2 - e)) * 2 powi e"
    by (simp only: st fp_val_align [OF e(1)] fp_val_align [OF e(2)])
  also have "\<dots> \<longleftrightarrow> real_of_int (m1 * 2 ^ nat (e1 - e)) \<le> real_of_int (m2 * 2 ^ nat (e2 - e))"
    using pos by (rule mult_le_cancel_right_pos)
  also have "\<dots> \<longleftrightarrow> m1 * 2 ^ nat (e1 - e) \<le> m2 * 2 ^ nat (e2 - e)"
    by (rule of_int_le_iff)
  finally show ?thesis
    by (simp add: st e_def Let_def)
qed

lemma fp_add_rounds_sum: "\<exists>x. fp_add s t = fp_round x \<and> fp_val x = fp_val s + fp_val t"
proof (cases s; cases t)
  fix m1 e1 m2 e2
  assume st: "s = Fp m1 e1" "t = Fp m2 e2"
  define e where "e = min e1 e2"
  have e: "e \<le> e1" "e \<le> e2" by (simp_all add: e_def)
  have "fp_val (Fp (m1 * 2 ^ nat (e1 - e) + m2 * 2 ^ nat (e2 - e)) e)
      = fp_val (Fp m1 e1) + fp_val (Fp m2 e2)"
    by (simp only: fp_val_align [OF e(1)] fp_val_align [OF e(2)]) (simp add: algebra_simps)
  moreover have "fp_add s t = fp_round (Fp (m1 * 2 ^ nat (e1 - e) + m2 * 2 ^ nat (e2 - e)) e)"
    by (simp only: st fp_add.simps Let_def e_def)
  ultimately show ?thesis unfolding st by blast
qed

lemma fp_tenth_nearest: "\<bar>fp_val fp_tenth - 1 / 10\<bar> < 2 powi (- 57)"
  by (simp add: fp_tenth_def power_int_minus field_simps)

text \<open>
  The counter's values from \<open>0.1\<close> on, sum by sum: the doubles
  \<open>0x1.999999999999ap-3\<close>, \<open>0x1.3333333333334p-2\<close>, \<open>0x1.999999999999ap-2\<close>,
  \<open>0x1p-1\<close>, \<open>0x1.3333333333333p-1\<close>, \<open>0x1.6666666666666p-1\<close>,
  \<open>0x1.9999999999999p-1\<close>, \<open>0x1.cccccccccccccp-1\<close>, \<open>0x1.fffffffffffffp-1\<close> and
  \<open>0x1.1999999999999p+0\<close>. The tenth value is the last that passes the test
  \<open>t <= 1\<close>; it is \<open>1 - 2 powi (- 53)\<close>, not 1.
\<close>

lemma fp_counter_steps:
  "fp_add (Fp 7205759403792794 (- 56)) fp_tenth = Fp 7205759403792794 (- 55)"
  "fp_add (Fp 7205759403792794 (- 55)) fp_tenth = Fp 5404319552844596 (- 54)"
  "fp_add (Fp 5404319552844596 (- 54)) fp_tenth = Fp 7205759403792794 (- 54)"
  "fp_add (Fp 7205759403792794 (- 54)) fp_tenth = Fp 4503599627370496 (- 53)"
  "fp_add (Fp 4503599627370496 (- 53)) fp_tenth = Fp 5404319552844595 (- 53)"
  "fp_add (Fp 5404319552844595 (- 53)) fp_tenth = Fp 6305039478318694 (- 53)"
  "fp_add (Fp 6305039478318694 (- 53)) fp_tenth = Fp 7205759403792793 (- 53)"
  "fp_add (Fp 7205759403792793 (- 53)) fp_tenth = Fp 8106479329266892 (- 53)"
  "fp_add (Fp 8106479329266892 (- 53)) fp_tenth = Fp 9007199254740991 (- 53)"
  "fp_add (Fp 9007199254740991 (- 53)) fp_tenth = Fp 4953959590107545 (- 52)"
  by (simp_all add: fp_tenth_def Let_def nbits.simps)

lemma fp_counter_tests:
  "fp_le (Fp 7205759403792794 (- 56)) fp_one"
  "fp_le (Fp 7205759403792794 (- 55)) fp_one"
  "fp_le (Fp 5404319552844596 (- 54)) fp_one"
  "fp_le (Fp 7205759403792794 (- 54)) fp_one"
  "fp_le (Fp 4503599627370496 (- 53)) fp_one"
  "fp_le (Fp 5404319552844595 (- 53)) fp_one"
  "fp_le (Fp 6305039478318694 (- 53)) fp_one"
  "fp_le (Fp 7205759403792793 (- 53)) fp_one"
  "fp_le (Fp 8106479329266892 (- 53)) fp_one"
  "fp_le (Fp 9007199254740991 (- 53)) fp_one"
  "\<not> fp_le (Fp 4953959590107545 (- 52)) fp_one"
  by (simp_all add: fp_one_def Let_def)

lemma fp_counter_values:
  "fp_val (Fp 7205759403792794 (- 56)) = 3602879701896397 / 36028797018963968"
  "fp_val (Fp 7205759403792794 (- 55)) = 3602879701896397 / 18014398509481984"
  "fp_val (Fp 5404319552844596 (- 54)) = 1351079888211149 / 4503599627370496"
  "fp_val (Fp 7205759403792794 (- 54)) = 3602879701896397 / 9007199254740992"
  "fp_val (Fp 4503599627370496 (- 53)) = 1 / 2"
  "fp_val (Fp 5404319552844595 (- 53)) = 5404319552844595 / 9007199254740992"
  "fp_val (Fp 6305039478318694 (- 53)) = 3152519739159347 / 4503599627370496"
  "fp_val (Fp 7205759403792793 (- 53)) = 7205759403792793 / 9007199254740992"
  "fp_val (Fp 8106479329266892 (- 53)) = 2026619832316723 / 2251799813685248"
  "fp_val (Fp 9007199254740991 (- 53)) = 9007199254740991 / 9007199254740992"
  by (simp_all add: power_int_minus field_simps)

lemma sampleLoop_step:
  "fp_le t fp_one \<Longrightarrow> samplePoint seg (Fin (fp_val t)) = Some pt \<Longrightarrow>
   sampleLoop seg t sp = sampleLoop seg (fp_add t fp_tenth) (addPoint sp pt)"
  by (subst sampleLoop.simps) simp

lemma sampleLoop_stop: "\<not> fp_le t fp_one \<Longrightarrow> sampleLoop seg t sp = Some sp"
  by (subst sampleLoop.simps) simp

lemma samplePoint_wf:
  assumes "2 \<le> length (a seg)" "2 \<le> length (b seg)" "2 \<le> length (c seg)" "2 \<le> length (d seg)"
  shows "\<exists>x y. samplePoint seg t = Some [x, y]"
  using assms by (auto simp: samplePoint_def cubicAt_def at'_def)

lemma sampleLoop_result:
  assumes "2 \<le> length (a seg)" "2 \<le> length (b seg)" "2 \<le> length (c seg)" "2 \<le> length (d seg)"
  shows "\<exists>pts. sampleLoop seg fp_tenth sp = Some (sp\<lparr>points := points sp @ pts\<rparr>)
    \<and> map Some pts = map (\<lambda>t. samplePoint seg (Fin t))
         [3602879701896397 / 36028797018963968, 3602879701896397 / 18014398509481984,
          1351079888211149 / 4503599627370496, 3602879701896397 / 9007199254740992,
          1 / 2, 5404319552844595 / 9007199254740992,
          3152519739159347 / 4503599627370496, 7205759403792793 / 9007199254740992,
          2026619832316723 / 2251799813685248, 9007199254740991 / 9007199254740992]"
proof -
  define f where "f t = the (samplePoint seg (Fin (fp_val t)))" for t
  have f: "samplePoint seg (Fin (fp_val t)) = Some (f t)" for t
    using samplePoint_wf [OF assms, of "Fin (fp_val t)"] by (auto simp: f_def)
  note step = sampleLoop_step [OF _ f]
  have "sampleLoop seg fp_tenth sp = sampleLoop seg (Fp 7205759403792794 (- 56)) sp"
    by (simp add: fp_tenth_def)
  also have "\<dots> = sampleLoop seg (Fp 7205759403792794 (- 55))
      (addPoint sp (f (Fp 7205759403792794 (- 56))))"
    by (simp add: step fp_counter_tests fp_counter_steps)
  also have "\<dots> = Some (sp\<lparr>points := points sp @ map f
      [Fp 7205759403792794 (- 56), Fp 7205759403792794 (- 55), Fp 5404319552844596 (- 54),
       Fp 7205759403792794 (- 54), Fp 4503599627370496 (- 53), Fp 5404319552844595 (- 53),
       Fp 6305039478318694 (- 53), Fp 7205759403792793 (- 53), Fp 8106479329266892 (- 53),
       Fp 9007199254740991 (- 53)]\<rparr>)"
    by (simp add: step sampleLoop_stop fp_counter_tests fp_counter_steps addPoint_def)
  finally have res: "sampleLoop seg fp_tenth sp = Some (sp\<lparr>points := points sp @ map f
      [Fp 7205759403792794 (- 56), Fp 7205759403792794 (- 55), Fp 5404319552844596 (- 54),
       Fp 7205759403792794 (- 54), Fp 4503599627370496 (- 53), Fp 5404319552844595 (- 53),
       Fp 6305039478318694 (- 53), Fp 7205759403792793 (- 53), Fp 8106479329266892 (- 53),
       Fp 9007199254740991 (- 53)]\<rparr>)" .
  show ?thesis
    apply (rule exI, rule conjI, rule res)
    apply (simp only: list.map f [symmetric] fp_counter_values)
    done
qed

section \<open>The control points\<close>

lemma injectControlPoints_result:
  assumes n: "2 \<le> length (points path)"
    and wf: "\<forall>p\<in>set (points path). 2 \<le> length p"
  shows "injectControlPoints path = Some (path\<lparr>points :=
      [dsub (points path ! 0 ! 0) (dsub (points path ! 1 ! 0) (points path ! 0 ! 0)),
       dsub (points path ! 0 ! 1) (dsub (points path ! 1 ! 1) (points path ! 0 ! 1))]
      # points path @
      [[dadd (last (points path) ! 0)
          (dsub (last (points path) ! 0) (points path ! (length (points path) - 2) ! 0)),
        dadd (last (points path) ! 1)
          (dsub (last (points path) ! 1) (points path ! (length (points path) - 2) ! 1))]]\<rparr>)"
proof -
  let ?ps = "points path"
  let ?n = "length ?ps"
  have len: "\<And>i. i < ?n \<Longrightarrow> 2 \<le> length (?ps ! i)"
    using wf by simp
  have l0: "2 \<le> length (?ps ! 0)" and l1: "2 \<le> length (?ps ! 1)"
    and ll: "2 \<le> length (?ps ! (?n - 1))" and lb: "2 \<le> length (?ps ! (?n - 2))"
    using n by (auto intro!: len)
  have g0: "getPoint path 0 = Some (?ps ! 0)" and g1: "getPoint path 1 = Some (?ps ! 1)"
    using n by (auto simp: getPoint_def at'_def)
  have gl: "getPoint (path\<lparr>points := s # ?ps\<rparr>) (length (s # ?ps) - 1) = Some (?ps ! (?n - 1))"
    and gb: "getPoint (path\<lparr>points := s # ?ps\<rparr>) (length (s # ?ps) - 2) = Some (?ps ! (?n - 2))"
    for s
    using n by (auto simp: getPoint_def at'_def nth_Cons' numeral_2_eq_2)
  have lst: "last ?ps = ?ps ! (?n - 1)"
    using n by (cases "points path" rule: rev_cases) auto
  show ?thesis
    unfolding injectControlPoints_def
    using l0 l1 ll lb g0 g1 gl gb
    by (auto simp: at'_def Let_def lst numeral_2_eq_2)
qed

section \<open>The loops of the smoother\<close>

declare segmentsLoop.simps [simp del] smoothLoop.simps [simp del]

lemma segmentsLoop_result:
  assumes wf: "\<forall>p\<in>set (points cp). 2 \<le> length p"
  shows "\<exists>segs. segmentsLoop cp i acc = Some (acc @ segs)
    \<and> length segs = length (points cp) - 3 - i
    \<and> (\<forall>k<length segs. calcCoefficients (Fin 0.75) (Fin 0) (points cp ! (i + k))
          (points cp ! (i + k + 1)) (points cp ! (i + k + 2)) (points cp ! (i + k + 3))
         = Some (segs ! k))"
proof (induction n \<equiv> "length (points cp) - 3 - i" arbitrary: i acc)
  case 0
  then have "\<not> i < length (points cp) - 3" by simp
  then have "segmentsLoop cp i acc = Some acc"
    by (subst segmentsLoop.simps) simp
  with 0 show ?case by simp
next
  case (Suc n)
  let ?ps = "points cp"
  from Suc.hyps(2) have i: "i < length ?ps - 3" by simp
  then have idx: "i < length ?ps" "i + 1 < length ?ps" "i + 2 < length ?ps" "i + 3 < length ?ps"
    by simp_all
  then have "2 \<le> length (?ps ! i)" "2 \<le> length (?ps ! (i + 1))"
    "2 \<le> length (?ps ! (i + 2))" "2 \<le> length (?ps ! (i + 3))"
    using wf nth_mem by blast+
  then obtain seg where seg: "calcCoefficients (Fin 0.75) (Fin 0) (?ps ! i) (?ps ! (i + 1))
      (?ps ! (i + 2)) (?ps ! (i + 3)) = Some seg"
    using calcCoefficients_wf by blast
  have step: "segmentsLoop cp i acc = segmentsLoop cp (i + 1) (acc @ [seg])"
    using i idx seg by (subst segmentsLoop.simps) (simp add: getPoint_def at'_def)
  from Suc.hyps(2) have "n = length ?ps - 3 - (i + 1)" by simp
  from Suc.hyps(1) [OF this, of "acc @ [seg]"] obtain segs where
    segs: "segmentsLoop cp (i + 1) (acc @ [seg]) = Some ((acc @ [seg]) @ segs)"
      "length segs = length ?ps - 3 - (i + 1)"
      "\<forall>k<length segs. calcCoefficients (Fin 0.75) (Fin 0) (?ps ! (i + 1 + k))
          (?ps ! (i + 1 + k + 1)) (?ps ! (i + 1 + k + 2)) (?ps ! (i + 1 + k + 3))
         = Some (segs ! k)"
    by blast
  have "\<forall>k<length (seg # segs). calcCoefficients (Fin 0.75) (Fin 0) (?ps ! (i + k))
          (?ps ! (i + k + 1)) (?ps ! (i + k + 2)) (?ps ! (i + k + 3))
         = Some ((seg # segs) ! k)"
  proof (intro allI impI)
    fix k assume k: "k < length (seg # segs)"
    show "calcCoefficients (Fin 0.75) (Fin 0) (?ps ! (i + k))
          (?ps ! (i + k + 1)) (?ps ! (i + k + 2)) (?ps ! (i + k + 3))
         = Some ((seg # segs) ! k)"
    proof (cases k)
      case 0
      then show ?thesis using seg by simp
    next
      case (Suc j)
      then have "j < length segs" using k by simp
      with segs(3) have "calcCoefficients (Fin 0.75) (Fin 0) (?ps ! (i + 1 + j))
          (?ps ! (i + 1 + j + 1)) (?ps ! (i + 1 + j + 2)) (?ps ! (i + 1 + j + 3))
         = Some (segs ! j)"
        by blast
      moreover have "i + 1 + j = i + k" using Suc by simp
      ultimately show ?thesis using Suc by simp
    qed
  qed
  moreover have "length (seg # segs) = length ?ps - 3 - i"
    using segs(2) i by simp
  moreover have "segmentsLoop cp i acc = Some (acc @ seg # segs)"
    using step segs(1) by simp
  ultimately show ?case by blast
qed

lemma smoothLoop_result:
  assumes wf: "\<forall>s\<in>set segs. 2 \<le> length (a s) \<and> 2 \<le> length (b s) \<and> 2 \<le> length (c s)
      \<and> 2 \<le> length (d s)"
  shows "\<exists>pts. smoothLoop segs z sp = Some (sp\<lparr>points := points sp
        @ (if z = 0 \<and> segs \<noteq> [] then [[d (segs ! 0) ! 0, d (segs ! 0) ! 1]] else []) @ pts\<rparr>)
    \<and> length pts = 10 * (length segs - z)"
proof (induction n \<equiv> "length segs - z" arbitrary: z sp)
  case 0
  then have "\<not> z < length segs" by simp
  then have "smoothLoop segs z sp = Some sp"
    by (subst smoothLoop.simps) simp
  with 0 show ?case by auto
next
  case (Suc n)
  from Suc.hyps(2) have z: "z < length segs" by simp
  then have mem: "segs ! z \<in> set segs"
    by simp
  from z have "0 < length segs" by (cases segs) simp_all
  then have mem0: "segs ! 0 \<in> set segs"
    by (rule nth_mem)
  let ?first = "if z = 0 then [[d (segs ! 0) ! 0, d (segs ! 0) ! 1]] else []"
  let ?sp1 = "sp\<lparr>points := points sp @ ?first\<rparr>"
  have d0: "at' (d (segs ! 0)) 0 = Some (d (segs ! 0) ! 0)"
    "at' (d (segs ! 0)) 1 = Some (d (segs ! 0) ! 1)"
    using wf mem0 by (auto simp: at'_def)
  from wf mem have wfz: "2 \<le> length (a (segs ! z))" "2 \<le> length (b (segs ! z))"
    "2 \<le> length (c (segs ! z))" "2 \<le> length (d (segs ! z))"
    by blast+
  from sampleLoop_result [OF wfz, of ?sp1] obtain pts where
    pts: "sampleLoop (segs ! z) fp_tenth ?sp1 = Some (?sp1\<lparr>points := points ?sp1 @ pts\<rparr>)"
    and "map Some pts = map (\<lambda>t. samplePoint (segs ! z) (Fin t))
         [3602879701896397 / 36028797018963968, 3602879701896397 / 18014398509481984,
          1351079888211149 / 4503599627370496, 3602879701896397 / 9007199254740992,
          1 / 2, 5404319552844595 / 9007199254740992,
          3152519739159347 / 4503599627370496, 7205759403792793 / 9007199254740992,
          2026619832316723 / 2251799813685248, 9007199254740991 / 9007199254740992]"
    by blast
  then have "length (map Some pts) = 10" by simp
  then have len: "length pts = 10" by simp
  have step: "smoothLoop segs z sp = smoothLoop segs (z + 1) (?sp1\<lparr>points := points ?sp1 @ pts\<rparr>)"
    using z d0 pts by (subst smoothLoop.simps) (auto simp: at'_def addPoint_def)
  from Suc.hyps(2) have "n = length segs - (z + 1)" by simp
  from Suc.hyps(1) [OF this, of "?sp1\<lparr>points := points ?sp1 @ pts\<rparr>"] obtain pts' where
    pts': "smoothLoop segs (z + 1) (?sp1\<lparr>points := points ?sp1 @ pts\<rparr>)
        = Some (sp\<lparr>points := points sp @ ?first @ pts @ pts'\<rparr>)"
      "length pts' = 10 * (length segs - (z + 1))"
    by auto
  have "length (pts @ pts') = 10 * (length segs - z)"
    using len pts'(2) z by simp
  moreover have "smoothLoop segs z sp = Some (sp\<lparr>points := points sp
        @ (if z = 0 \<and> segs \<noteq> [] then [[d (segs ! 0) ! 0, d (segs ! 0) ! 1]] else [])
        @ (pts @ pts')\<rparr>)"
    using step pts'(1) z by auto
  ultimately show ?case by blast
qed

lemma take_2_nths: "2 \<le> length p \<Longrightarrow> [take 2 p ! 0, take 2 p ! 1] = take 2 p"
  by (cases p; cases "tl p") auto

lemma generateSmoothPath_result:
  assumes n: "2 \<le> length (points path)"
    and wf: "\<forall>p\<in>set (points path). 2 \<le> length p"
  shows "\<exists>pts. generateSmoothPath path = Some \<lparr>points = take 2 (points path ! 0) # pts\<rparr>
    \<and> length pts = 10 * (length (points path) - 1)"
proof -
  let ?ps = "points path"
  obtain cp where cp: "injectControlPoints path = Some cp"
    and "\<exists>s e. points cp = s # ?ps @ [e] \<and> length s = 2 \<and> length e = 2"
    using injectControlPoints_result [OF n wf] by simp
  then obtain s e where pcp: "points cp = s # ?ps @ [e]" and se: "length s = 2" "length e = 2"
    by blast
  have wfcp: "\<forall>p\<in>set (points cp). 2 \<le> length p"
    using wf se by (auto simp: pcp)
  obtain segs where segs: "segmentsLoop cp 0 [] = Some segs"
    and len: "length segs = length (points cp) - 3"
    and calc: "\<forall>k<length segs. calcCoefficients (Fin 0.75) (Fin 0) (points cp ! k)
          (points cp ! (k + 1)) (points cp ! (k + 2)) (points cp ! (k + 3)) = Some (segs ! k)"
    using segmentsLoop_result [OF wfcp, of 0 "[]"] by auto
  have len': "length segs = length ?ps - 1"
    using len by (simp add: pcp)
  have seg_wf: "length (a (segs ! k)) = 2 \<and> length (b (segs ! k)) = 2
      \<and> length (c (segs ! k)) = 2 \<and> d (segs ! k) = take 2 (points cp ! (k + 1))"
    if k: "k < length segs" for k
  proof -
    from k len have "k + 3 < length (points cp)" by simp
    then have "2 \<le> length (points cp ! k)" "2 \<le> length (points cp ! (k + 1))"
      "2 \<le> length (points cp ! (k + 2))" "2 \<le> length (points cp ! (k + 3))"
      using wfcp by (simp_all)
    from calcCoefficients_wf [OF this, of "Fin 0.75" "Fin 0"] calc k show ?thesis
      by auto
  qed
  have wfsegs: "\<forall>s\<in>set segs. 2 \<le> length (a s) \<and> 2 \<le> length (b s) \<and> 2 \<le> length (c s)
      \<and> 2 \<le> length (d s)"
  proof
    fix sg assume "sg \<in> set segs"
    then obtain k where k: "k < length segs" "sg = segs ! k"
      by (auto simp: in_set_conv_nth)
    moreover have "2 \<le> length (points cp ! (k + 1))"
    proof -
      from k len have "k + 1 < length (points cp)" by simp
      then show ?thesis using wfcp by simp
    qed
    ultimately show "2 \<le> length (a sg) \<and> 2 \<le> length (b sg) \<and> 2 \<le> length (c sg)
      \<and> 2 \<le> length (d sg)"
      using seg_wf [of k] by simp
  qed
  have ne: "segs \<noteq> []" using len' n by auto
  then have "0 < length segs" by simp
  from seg_wf [OF this] have d0: "d (segs ! 0) = take 2 (?ps ! 0)"
    using n by (cases "points path") (auto simp: pcp)
  have "2 \<le> length (?ps ! 0)" using wf n by (cases ?ps) auto
  then have first: "[d (segs ! 0) ! 0, d (segs ! 0) ! 1] = take 2 (?ps ! 0)"
    unfolding d0 by (rule take_2_nths)
  obtain pts where "smoothLoop segs 0 \<lparr>points = []\<rparr> = Some (\<lparr>points = []\<rparr>\<lparr>points := points \<lparr>points = []\<rparr>
        @ (if (0::nat) = 0 \<and> segs \<noteq> [] then [[d (segs ! 0) ! 0, d (segs ! 0) ! 1]] else []) @ pts\<rparr>)"
    and "length pts = 10 * (length segs - 0)"
    using smoothLoop_result [OF wfsegs, of 0 "\<lparr>points = []\<rparr>"] by blast
  then have "smoothLoop segs 0 \<lparr>points = []\<rparr> = Some \<lparr>points = take 2 (?ps ! 0) # pts\<rparr>"
    and "length pts = 10 * (length ?ps - 1)"
    using ne first len' by simp_all
  then show ?thesis
    by (auto simp: generateSmoothPath_def cp segs)
qed

section \<open>The smoothed path\<close>

text \<open>
  Claim C1. For a path of \<open>N \<ge> 2\<close> waypoints, each with at least two coordinates,
  \<^verbatim>\<open>generateSmoothPath\<close> returns a path of \<open>1 + 10 * (N - 1)\<close> points. This needs
  no condition on the knot spacings: a division by zero changes the values of the points,
  not their number.
\<close>

theorem generateSmoothPath_length:
  assumes "2 \<le> length (points path)"
    and "\<forall>p\<in>set (points path). 2 \<le> length p"
  shows "\<exists>out. generateSmoothPath path = Some out
    \<and> length (points out) = 1 + 10 * (length (points path) - 1)"
  using generateSmoothPath_result [OF assms] by auto

theorem generateSmoothPath_length_witness:
  "\<exists>out. generateSmoothPath \<lparr>points = [[Fin 0, Fin 0], [Fin 1, Fin 1], [Fin 2, Fin 0]]\<rparr>
      = Some out \<and> length (points out) = 21"
  using generateSmoothPath_length [of "\<lparr>points = [[Fin 0, Fin 0], [Fin 1, Fin 1], [Fin 2, Fin 0]]\<rparr>"]
  by simp

text \<open>
  Claim C4. For a path of \<open>N \<ge> 2\<close> waypoints with two coordinates each, the first
  point of the path that \<^verbatim>\<open>generateSmoothPath\<close> returns is the first waypoint.
\<close>

theorem generateSmoothPath_first_point:
  assumes "2 \<le> length (points path)"
    and "\<forall>p\<in>set (points path). length p = 2"
  shows "\<exists>out. generateSmoothPath path = Some out \<and> hd (points out) = hd (points path)"
proof -
  from assms(2) have wf: "\<forall>p\<in>set (points path). 2 \<le> length p"
    by simp
  from assms have "length (points path ! 0) = 2"
    by (cases "points path") auto
  moreover have "hd (points path) = points path ! 0"
    using assms(1) by (cases "points path") auto
  ultimately show ?thesis
    using generateSmoothPath_result [OF assms(1) wf] by auto
qed

theorem generateSmoothPath_first_point_witness:
  "\<exists>out. generateSmoothPath \<lparr>points = [[Fin 10, Fin 7], [Fin 15, Fin 10], [Fin 20, Fin 13]]\<rparr>
      = Some out \<and> hd (points out) = [Fin 10, Fin 7]"
  using generateSmoothPath_first_point
    [of "\<lparr>points = [[Fin 10, Fin 7], [Fin 15, Fin 10], [Fin 20, Fin 13]]\<rparr>"]
  by simp

text \<open>
  Claim C5. For a path of \<open>N \<ge> 2\<close> waypoints \<open>w\<close>, the control points that
  \<^verbatim>\<open>generateSmoothPath\<close> builds before its loops are the \<open>N + 2\<close> points
  \<open>w[0] - (w[1] - w[0])\<close>, then the waypoints in their order, then
  \<open>w[N-1] + (w[N-1] - w[N-2])\<close>, and the loops run on this sequence.
\<close>

theorem control_sequence:
  assumes "2 \<le> length (points path)"
    and "\<forall>p\<in>set (points path). 2 \<le> length p"
  shows "\<exists>cp. injectControlPoints path = Some cp
    \<and> points cp =
      [[dsub (points path ! 0 ! 0) (dsub (points path ! 1 ! 0) (points path ! 0 ! 0)),
        dsub (points path ! 0 ! 1) (dsub (points path ! 1 ! 1) (points path ! 0 ! 1))]]
      @ points path @
      [[dadd (last (points path) ! 0)
          (dsub (last (points path) ! 0) (points path ! (length (points path) - 2) ! 0)),
        dadd (last (points path) ! 1)
          (dsub (last (points path) ! 1) (points path ! (length (points path) - 2) ! 1))]]
    \<and> length (points cp) = length (points path) + 2
    \<and> generateSmoothPath path
        = segmentsLoop cp 0 [] \<bind> (\<lambda>segments. smoothLoop segments 0 \<lparr>points = []\<rparr>)"
  using injectControlPoints_result [OF assms] by (simp add: generateSmoothPath_def)

theorem control_sequence_witness:
  "\<exists>cp. injectControlPoints \<lparr>points = [[Fin 10, Fin 7], [Fin 15, Fin 10], [Fin 20, Fin 13]]\<rparr>
      = Some cp
    \<and> points cp = [[Fin 5, Fin 4], [Fin 10, Fin 7], [Fin 15, Fin 10], [Fin 20, Fin 13],
         [Fin 25, Fin 16]]"
  using control_sequence [of "\<lparr>points = [[Fin 10, Fin 7], [Fin 15, Fin 10], [Fin 20, Fin 13]]\<rparr>"]
  by auto

text \<open>
  Claim C7. For a path of fewer than two waypoints the first part of
  \<^verbatim>\<open>generateSmoothPath\<close> throws (\<^verbatim>\<open>std::out_of_range\<close>, from \<^verbatim>\<open>at\<close>
  on the index 0 or 1), and so does the function: it returns no path.
\<close>

theorem too_few_waypoints:
  assumes "length (points path) < 2"
  shows "injectControlPoints path = None \<and> generateSmoothPath path = None"
proof -
  have "getPoint path 0 = None \<or> getPoint path 1 = None"
    using assms by (auto simp: getPoint_def at'_def)
  then have "injectControlPoints path = None"
    by (auto simp: injectControlPoints_def split: Option.bind_split)
  then show ?thesis
    by (simp add: generateSmoothPath_def)
qed

theorem too_few_waypoints_witness:
  "generateSmoothPath \<lparr>points = []\<rparr> = None
   \<and> generateSmoothPath \<lparr>points = [[Fin 10, Fin 7]]\<rparr> = None"
  using too_few_waypoints [of "\<lparr>points = []\<rparr>"]
    too_few_waypoints [of "\<lparr>points = [[Fin 10, Fin 7]]\<rparr>"]
  by simp

text \<open>
  Claim C8. For a segment whose four coefficient vectors have two components, the
  sampling loop ends after ten rounds and appends ten points, in increasing order of the
  parameter: the values of the cubic at the ten values of the counter listed below. Four
  of them are not the doubles nearest to 0.3, 0.8, 0.9 and 1; the last is
  \<open>1 - 2 powi (- 53)\<close>, so no sample is taken at \<open>t = 1\<close>. For the waypoints (0, 0) and
  (1, 1) the cubic of the one segment is \<open>P(t) = t\<close> and the last point of the output is
  not (1, 1).
\<close>

theorem sampling_parameters:
  assumes "2 \<le> length (a seg)" "2 \<le> length (b seg)" "2 \<le> length (c seg)" "2 \<le> length (d seg)"
  shows "\<exists>pts. sampleLoop seg fp_tenth sp = Some (sp\<lparr>points := points sp @ pts\<rparr>)
    \<and> map Some pts = map (\<lambda>t. samplePoint seg (Fin t))
         [3602879701896397 / 36028797018963968, 3602879701896397 / 18014398509481984,
          1351079888211149 / 4503599627370496, 3602879701896397 / 9007199254740992,
          1 / 2, 5404319552844595 / 9007199254740992,
          3152519739159347 / 4503599627370496, 7205759403792793 / 9007199254740992,
          2026619832316723 / 2251799813685248, 9007199254740991 / 9007199254740992]"
  using sampleLoop_result [OF assms] .

lemma is_double_frac:
  assumes "\<bar>m\<bar> < 2 ^ 53" "k \<le> 1074"
  shows "is_double (real_of_int m / 2 ^ k)"
proof -
  have "is_double (real_of_int m * 2 powi (- int k))"
    using assms by (intro is_double_scaled) simp_all
  moreover have "real_of_int m * 2 powi (- int k) = real_of_int m / 2 ^ k"
    by (simp add: power_int_minus field_simps)
  ultimately show ?thesis by simp
qed

lemma rnd_minus_1 [simp]: "rnd (- 1) = Fin (- 1)"
  by (rule rnd_double) simp

lemma counter_values_double:
  "is_double (3602879701896397 / 36028797018963968)"
  "is_double (3602879701896397 / 18014398509481984)"
  "is_double (1351079888211149 / 4503599627370496)"
  "is_double (3602879701896397 / 9007199254740992)"
  "is_double (1 / 2)"
  "is_double (5404319552844595 / 9007199254740992)"
  "is_double (3152519739159347 / 4503599627370496)"
  "is_double (7205759403792793 / 9007199254740992)"
  "is_double (2026619832316723 / 2251799813685248)"
  "is_double (9007199254740991 / 9007199254740992)"
  using is_double_frac [of 3602879701896397 55] is_double_frac [of 3602879701896397 54]
    is_double_frac [of 1351079888211149 52] is_double_frac [of 3602879701896397 53]
    is_double_frac [of 1 1] is_double_frac [of 5404319552844595 53]
    is_double_frac [of 3152519739159347 52] is_double_frac [of 7205759403792793 53]
    is_double_frac [of 2026619832316723 51] is_double_frac [of 9007199254740991 53]
  by simp_all

lemma dpow_unit_interval:
  assumes "0 < t" "t \<le> 1" "0 < al"
  shows "\<exists>y. dpow (Fin t) (Fin al) = Fin y"
proof (cases "t = 1")
  case True
  then show ?thesis by simp
next
  case False
  have "t powr al \<le> 1" using assms by (intro powr_le1) simp_all
  moreover have "0 \<le> t powr al" by simp
  moreover have "(2::real) powi 0 < 2 powi 1023"
    by (intro iffD2 [OF two_powi_less_iff]) simp
  ultimately have "\<bar>t powr al\<bar> < 2 powi 1023" by simp
  then obtain y where "rnd (t powr al) = Fin y" using rnd_finite by blast
  then show ?thesis using assms False by (simp add: dpow_def)
qed

lemma samplePoint_identity:
  assumes "0 < t" "t \<le> 1" "is_double t"
  shows "samplePoint \<lparr>a = [Fin 0, Fin 0], b = [Fin 0, Fin 0], c = [Fin 1, Fin 1],
      d = [Fin 0, Fin 0]\<rparr> (Fin t) = Some [Fin t, Fin t]"
proof -
  obtain y3 where y3: "dpow (Fin t) (Fin 3) = Fin y3"
    using dpow_unit_interval [OF assms(1,2), of 3] by auto
  obtain y2 where y2: "dpow (Fin t) (Fin 2) = Fin y2"
    using dpow_unit_interval [OF assms(1,2), of 2] by auto
  have "rnd t = Fin t" using assms(3) by (rule rnd_double)
  then show ?thesis
    by (simp add: samplePoint_def cubicAt_def y3 y2 del: dpow_Fin_2)
qed

lemma diagonal_control_points:
  "injectControlPoints \<lparr>points = [[Fin 0, Fin 0], [Fin 1, Fin 1]]\<rparr>
     = Some \<lparr>points = [[Fin (- 1), Fin (- 1)], [Fin 0, Fin 0], [Fin 1, Fin 1], [Fin 2, Fin 2]]\<rparr>"
  by (simp add: injectControlPoints_def getPoint_def at'_def)

lemma diagonal_segment:
  "calcCoefficients (Fin 0.75) (Fin 0) [Fin (- 1), Fin (- 1)] [Fin 0, Fin 0]
      [Fin 1, Fin 1] [Fin 2, Fin 2]
     = Some \<lparr>a = [Fin 0, Fin 0], b = [Fin 0, Fin 0], c = [Fin 1, Fin 1], d = [Fin 0, Fin 0]\<rparr>"
  by (simp add: calcCoefficients_def knotSpacing_def distance_Fin Let_def)

lemma diagonal_samples:
  assumes "map Some pts = map (\<lambda>t. samplePoint
        \<lparr>a = [Fin 0, Fin 0], b = [Fin 0, Fin 0], c = [Fin 1, Fin 1], d = [Fin 0, Fin 0]\<rparr> (Fin t))
         [3602879701896397 / 36028797018963968, 3602879701896397 / 18014398509481984,
          1351079888211149 / 4503599627370496, 3602879701896397 / 9007199254740992,
          1 / 2, 5404319552844595 / 9007199254740992,
          3152519739159347 / 4503599627370496, 7205759403792793 / 9007199254740992,
          2026619832316723 / 2251799813685248, 9007199254740991 / 9007199254740992]"
  shows "pts =
     [[Fin (3602879701896397 / 36028797018963968), Fin (3602879701896397 / 36028797018963968)],
      [Fin (3602879701896397 / 18014398509481984), Fin (3602879701896397 / 18014398509481984)],
      [Fin (1351079888211149 / 4503599627370496), Fin (1351079888211149 / 4503599627370496)],
      [Fin (3602879701896397 / 9007199254740992), Fin (3602879701896397 / 9007199254740992)],
      [Fin (1 / 2), Fin (1 / 2)],
      [Fin (5404319552844595 / 9007199254740992), Fin (5404319552844595 / 9007199254740992)],
      [Fin (3152519739159347 / 4503599627370496), Fin (3152519739159347 / 4503599627370496)],
      [Fin (7205759403792793 / 9007199254740992), Fin (7205759403792793 / 9007199254740992)],
      [Fin (2026619832316723 / 2251799813685248), Fin (2026619832316723 / 2251799813685248)],
      [Fin (9007199254740991 / 9007199254740992), Fin (9007199254740991 / 9007199254740992)]]"
  using assms by (simp add: samplePoint_identity counter_values_double map_eq_Cons_conv)

lemma diagonal_from_loop:
  assumes "sampleLoop \<lparr>a = [Fin 0, Fin 0], b = [Fin 0, Fin 0], c = [Fin 1, Fin 1], d = [Fin 0, Fin 0]\<rparr>
      fp_tenth \<lparr>points = [[Fin 0, Fin 0]]\<rparr> = Some \<lparr>points = [Fin 0, Fin 0] # pts\<rparr>"
  shows "generateSmoothPath \<lparr>points = [[Fin 0, Fin 0], [Fin 1, Fin 1]]\<rparr>
     = Some \<lparr>points = [Fin 0, Fin 0] # pts\<rparr>"
proof -
  let ?seg = "\<lparr>a = [Fin 0, Fin 0], b = [Fin 0, Fin 0], c = [Fin 1, Fin 1], d = [Fin 0, Fin 0]\<rparr>"
  let ?cp = "\<lparr>points = [[Fin (- 1), Fin (- 1)], [Fin 0, Fin 0], [Fin 1, Fin 1], [Fin 2, Fin 2]]\<rparr>"
  have "segmentsLoop ?cp 1 [?seg] = Some [?seg]"
    by (subst segmentsLoop.simps) simp
  then have segs: "segmentsLoop ?cp 0 [] = Some [?seg]"
    using diagonal_segment by (subst segmentsLoop.simps) (simp add: getPoint_def at'_def)
  have "smoothLoop [?seg] 1 sp = Some sp" for sp
    by (subst smoothLoop.simps) simp
  then have "smoothLoop [?seg] 0 \<lparr>points = []\<rparr> = Some \<lparr>points = [Fin 0, Fin 0] # pts\<rparr>"
    using assms by (subst smoothLoop.simps) (simp add: addPoint_def)
  then show ?thesis
    by (simp add: generateSmoothPath_def diagonal_control_points segs)
qed

lemma diagonal_path:
  "generateSmoothPath \<lparr>points = [[Fin 0, Fin 0], [Fin 1, Fin 1]]\<rparr> = Some \<lparr>points =
     [[Fin 0, Fin 0],
      [Fin (3602879701896397 / 36028797018963968), Fin (3602879701896397 / 36028797018963968)],
      [Fin (3602879701896397 / 18014398509481984), Fin (3602879701896397 / 18014398509481984)],
      [Fin (1351079888211149 / 4503599627370496), Fin (1351079888211149 / 4503599627370496)],
      [Fin (3602879701896397 / 9007199254740992), Fin (3602879701896397 / 9007199254740992)],
      [Fin (1 / 2), Fin (1 / 2)],
      [Fin (5404319552844595 / 9007199254740992), Fin (5404319552844595 / 9007199254740992)],
      [Fin (3152519739159347 / 4503599627370496), Fin (3152519739159347 / 4503599627370496)],
      [Fin (7205759403792793 / 9007199254740992), Fin (7205759403792793 / 9007199254740992)],
      [Fin (2026619832316723 / 2251799813685248), Fin (2026619832316723 / 2251799813685248)],
      [Fin (9007199254740991 / 9007199254740992), Fin (9007199254740991 / 9007199254740992)]]\<rparr>"
proof -
  let ?seg = "\<lparr>a = [Fin 0, Fin 0], b = [Fin 0, Fin 0], c = [Fin 1, Fin 1], d = [Fin 0, Fin 0]\<rparr>"
  obtain pts where loop: "sampleLoop ?seg fp_tenth \<lparr>points = [[Fin 0, Fin 0]]\<rparr>
      = Some \<lparr>points = [Fin 0, Fin 0] # pts\<rparr>"
    and pts: "map Some pts = map (\<lambda>t. samplePoint ?seg (Fin t))
         [3602879701896397 / 36028797018963968, 3602879701896397 / 18014398509481984,
          1351079888211149 / 4503599627370496, 3602879701896397 / 9007199254740992,
          1 / 2, 5404319552844595 / 9007199254740992,
          3152519739159347 / 4503599627370496, 7205759403792793 / 9007199254740992,
          2026619832316723 / 2251799813685248, 9007199254740991 / 9007199254740992]"
    using sampleLoop_result [of ?seg "\<lparr>points = [[Fin 0, Fin 0]]\<rparr>"] by auto
  show ?thesis
    using diagonal_from_loop [OF loop] unfolding diagonal_samples [OF pts] .
qed

theorem sampling_parameters_witness:
  "generateSmoothPath \<lparr>points = [[Fin 0, Fin 0], [Fin 1, Fin 1]]\<rparr> = Some \<lparr>points =
     [[Fin 0, Fin 0],
      [Fin (3602879701896397 / 36028797018963968), Fin (3602879701896397 / 36028797018963968)],
      [Fin (3602879701896397 / 18014398509481984), Fin (3602879701896397 / 18014398509481984)],
      [Fin (1351079888211149 / 4503599627370496), Fin (1351079888211149 / 4503599627370496)],
      [Fin (3602879701896397 / 9007199254740992), Fin (3602879701896397 / 9007199254740992)],
      [Fin (1 / 2), Fin (1 / 2)],
      [Fin (5404319552844595 / 9007199254740992), Fin (5404319552844595 / 9007199254740992)],
      [Fin (3152519739159347 / 4503599627370496), Fin (3152519739159347 / 4503599627370496)],
      [Fin (7205759403792793 / 9007199254740992), Fin (7205759403792793 / 9007199254740992)],
      [Fin (2026619832316723 / 2251799813685248), Fin (2026619832316723 / 2251799813685248)],
      [Fin (9007199254740991 / 9007199254740992), Fin (9007199254740991 / 9007199254740992)]]\<rparr>"
proof -
  let ?seg = "\<lparr>a = [Fin 0, Fin 0], b = [Fin 0, Fin 0], c = [Fin 1, Fin 1], d = [Fin 0, Fin 0]\<rparr>"
  obtain pts where loop: "sampleLoop ?seg fp_tenth \<lparr>points = [[Fin 0, Fin 0]]\<rparr>
      = Some \<lparr>points = [Fin 0, Fin 0] # pts\<rparr>"
    and pts: "map Some pts = map (\<lambda>t. samplePoint ?seg (Fin t))
         [3602879701896397 / 36028797018963968, 3602879701896397 / 18014398509481984,
          1351079888211149 / 4503599627370496, 3602879701896397 / 9007199254740992,
          1 / 2, 5404319552844595 / 9007199254740992,
          3152519739159347 / 4503599627370496, 7205759403792793 / 9007199254740992,
          2026619832316723 / 2251799813685248, 9007199254740991 / 9007199254740992]"
    using sampling_parameters [of ?seg "\<lparr>points = [[Fin 0, Fin 0]]\<rparr>"] by auto
  show ?thesis
    using diagonal_from_loop [OF loop] unfolding diagonal_samples [OF pts] .
qed

lemma samplePoint_NaN:
  "samplePoint \<lparr>a = [NaN, NaN], b = [NaN, NaN], c = [NaN, NaN], d = [Fin dx, Fin dy]\<rparr> t
     = Some [NaN, NaN]"
proof -
  have [simp]: "\<And>x. dadd NaN x = NaN" "\<And>x. dmul NaN x = NaN" by simp_all
  show ?thesis by (simp add: samplePoint_def cubicAt_def)
qed

theorem no_DegenerateSpacing_error:
  "calcCoefficients (Fin 0.75) (Fin 0) [Fin 0, Fin 0] [Fin 0, Fin 0] [Fin 1, Fin 1] [Fin 2, Fin 2]
     = Some \<lparr>a = [NaN, NaN], b = [NaN, NaN], c = [NaN, NaN], d = [Fin 0, Fin 0]\<rparr>
   \<and> generateSmoothPath \<lparr>points = [[Fin 0, Fin 0], [Fin 0, Fin 0]]\<rparr>
     = Some \<lparr>points = [[Fin 0, Fin 0], [NaN, NaN], [NaN, NaN], [NaN, NaN], [NaN, NaN],
         [NaN, NaN], [NaN, NaN], [NaN, NaN], [NaN, NaN], [NaN, NaN], [NaN, NaN]]\<rparr>"
proof -
  let ?seg = "\<lparr>a = [NaN, NaN], b = [NaN, NaN], c = [NaN, NaN], d = [Fin 0, Fin 0]\<rparr>"
  let ?cp = "\<lparr>points = [[Fin 0, Fin 0], [Fin 0, Fin 0], [Fin 0, Fin 0], [Fin 0, Fin 0]]\<rparr>"
  have first: "calcCoefficients (Fin 0.75) (Fin 0) [Fin 0, Fin 0] [Fin 0, Fin 0] [Fin 1, Fin 1]
        [Fin 2, Fin 2] = Some ?seg"
    using calc_coincident [of "0.75" "Fin 0" 0 0 "Fin 1" "Fin 1" "[]" "Fin 2" "Fin 2" "[]"]
    by simp
  have cp: "injectControlPoints \<lparr>points = [[Fin 0, Fin 0], [Fin 0, Fin 0]]\<rparr> = Some ?cp"
    by (simp add: injectControlPoints_def getPoint_def at'_def)
  have calc: "calcCoefficients (Fin 0.75) (Fin 0) [Fin 0, Fin 0] [Fin 0, Fin 0]
      [Fin 0, Fin 0] [Fin 0, Fin 0] = Some ?seg"
    using calc_coincident [of "0.75" "Fin 0" 0 0 "Fin 0" "Fin 0" "[]" "Fin 0" "Fin 0" "[]"]
    by simp
  have "segmentsLoop ?cp 1 [?seg] = Some [?seg]"
    by (subst segmentsLoop.simps) simp
  then have segs: "segmentsLoop ?cp 0 [] = Some [?seg]"
    using calc by (subst segmentsLoop.simps) (simp add: getPoint_def at'_def)
  obtain pts where loop: "sampleLoop ?seg fp_tenth \<lparr>points = [[Fin 0, Fin 0]]\<rparr>
      = Some \<lparr>points = [[Fin 0, Fin 0]] @ pts\<rparr>"
    and pts: "map Some pts = map (\<lambda>t. samplePoint ?seg (Fin t))
         [3602879701896397 / 36028797018963968, 3602879701896397 / 18014398509481984,
          1351079888211149 / 4503599627370496, 3602879701896397 / 9007199254740992,
          1 / 2, 5404319552844595 / 9007199254740992,
          3152519739159347 / 4503599627370496, 7205759403792793 / 9007199254740992,
          2026619832316723 / 2251799813685248, 9007199254740991 / 9007199254740992]"
    using sampleLoop_result [of ?seg "\<lparr>points = [[Fin 0, Fin 0]]\<rparr>"] by auto
  from pts have "pts = [[NaN, NaN], [NaN, NaN], [NaN, NaN], [NaN, NaN],
         [NaN, NaN], [NaN, NaN], [NaN, NaN], [NaN, NaN], [NaN, NaN], [NaN, NaN]]"
    by (simp add: samplePoint_NaN map_eq_Cons_conv)
  with loop have loop': "sampleLoop ?seg fp_tenth \<lparr>points = [[Fin 0, Fin 0]]\<rparr>
     = Some \<lparr>points = [[Fin 0, Fin 0], [NaN, NaN], [NaN, NaN], [NaN, NaN], [NaN, NaN],
         [NaN, NaN], [NaN, NaN], [NaN, NaN], [NaN, NaN], [NaN, NaN], [NaN, NaN]]\<rparr>"
    by simp
  have "smoothLoop [?seg] 1 sp = Some sp" for sp
    by (subst smoothLoop.simps) simp
  then have "smoothLoop [?seg] 0 \<lparr>points = []\<rparr>
     = Some \<lparr>points = [[Fin 0, Fin 0], [NaN, NaN], [NaN, NaN], [NaN, NaN], [NaN, NaN],
         [NaN, NaN], [NaN, NaN], [NaN, NaN], [NaN, NaN], [NaN, NaN], [NaN, NaN]]\<rparr>"
    using loop' by (subst smoothLoop.simps) (simp add: addPoint_def)
  then have "generateSmoothPath \<lparr>points = [[Fin 0, Fin 0], [Fin 0, Fin 0]]\<rparr>
     = Some \<lparr>points = [[Fin 0, Fin 0], [NaN, NaN], [NaN, NaN], [NaN, NaN], [NaN, NaN],
         [NaN, NaN], [NaN, NaN], [NaN, NaN], [NaN, NaN], [NaN, NaN], [NaN, NaN]]\<rparr>"
    by (simp add: generateSmoothPath_def cp segs)
  with first show ?thesis by simp
qed

section \<open>Overflow and underflow\<close>

lemma rnd_two_powi:
  assumes "- 1074 \<le> k" "k \<le> 971"
  shows "rnd (2 powi k) = Fin (2 powi k)"
proof -
  have "is_double (real_of_int 1 * 2 powi k)"
    using assms by (intro is_double_scaled) simp_all
  then show ?thesis using rnd_double by simp
qed

lemma rnd_overflow:
  assumes "2 powi 1024 \<le> x"
  shows "rnd x = PInf"
proof -
  define u where "u = ulp_exp x"
  define M where "M = round_even (x / 2 powi u)"
  have xpos: "0 < x" using assms two_powi_pos [of 1024] by linarith
  then have x0: "x \<noteq> 0" and ax: "\<bar>x\<bar> = x" by simp_all
  have "1024 \<le> \<lfloor>log 2 \<bar>x\<bar>\<rfloor>" using assms ax by (intro floor_log2_ge) simp
  then have k: "- 1074 \<le> \<lfloor>log 2 \<bar>x\<bar>\<rfloor> - 52" and u: "972 \<le> u"
    unfolding u_def ulp_exp_def by linarith+
  have "2 powi 52 \<le> \<bar>x / 2 powi ulp_exp x\<bar>" using x0 k by (rule scaled_normal)
  moreover have "0 \<le> x / 2 powi u" using xpos by simp
  ultimately have "real_of_int (2 ^ 52) \<le> x / 2 powi u" by (simp add: u_def)
  then have "2 ^ 52 \<le> M" unfolding M_def by (rule round_even_ge)
  then have "real_of_int (2 ^ 52) \<le> real_of_int M" by (simp only: of_int_le_iff)
  then have "2 powi 52 * 2 powi u \<le> real_of_int M * 2 powi u"
    by (intro mult_right_mono) simp_all
  moreover have "(2::real) powi 1024 \<le> 2 powi (52 + u)"
    using u by (intro iffD2 [OF two_powi_le_iff]) simp
  ultimately have "2 powi 1024 \<le> real_of_int M * 2 powi u"
    unfolding two_powi_add by linarith
  moreover have "0 \<le> real_of_int M * 2 powi u"
    using \<open>2 ^ 52 \<le> M\<close> by (simp add: order_trans [of 0 "2 ^ 52"])
  ultimately have "dbl_overflow \<le> \<bar>real_of_int M * 2 powi u\<bar>"
    unfolding dbl_overflow_powi by linarith
  then show ?thesis
    using x0 xpos unfolding rnd_def Let_def u_def [symmetric] M_def [symmetric] by simp
qed

lemma rnd_underflow:
  assumes "\<bar>x\<bar> < 2 powi (- 1075)"
  shows "rnd x = Fin 0"
proof (cases "x = 0")
  case True
  then show ?thesis by simp
next
  case False
  have "\<lfloor>log 2 \<bar>x\<bar>\<rfloor> < - 1075" using False assms by (rule floor_log2_less)
  then have u: "ulp_exp x = - 1074" unfolding ulp_exp_def by linarith
  have "(2::real) powi (- 1075) = 2 powi (- 1) * 2 powi (- 1074)"
    by (simp only: two_powi_add [symmetric]) simp
  then have "\<bar>x\<bar> < 1 / 2 * 2 powi (- 1074)" using assms by simp
  then have "\<bar>x\<bar> / 2 powi (- 1074) < 1 / 2"
    by (simp only: pos_divide_less_eq [OF two_powi_pos])
  then have "\<bar>x / 2 powi (- 1074) - real_of_int 0\<bar> < 1 / 2"
    by (simp only: abs_scaled of_int_0 diff_zero)
  then have "round_even (x / 2 powi (- 1074)) = 0" by (rule round_even_near)
  then show ?thesis
    using False unfolding rnd_def Let_def u by (simp add: dbl_overflow_def)
qed

lemma distance_finite_x:
  assumes "dsub (Fin x1) (Fin x0) = Fin dx"
  shows "distance (Fin x0 # r0) (Fin x1 # Fin y1 # r1)
     = Some (dsqrt (dadd (rnd (dx\<^sup>2)) (Fin 0)))"
  using assms unfolding distance_Fin by (simp del: dsub_Fin)

lemma distance_overflow:
  assumes "512 \<le> k" "k \<le> 971"
  shows "distance (Fin 0 # r0) (Fin (2 powi k) # Fin y1 # r1) = Some PInf"
proof -
  have "dsub (Fin (2 powi k)) (Fin 0) = Fin (2 powi k)"
    using rnd_two_powi [of k] assms by simp
  moreover have "((2::real) powi k)\<^sup>2 = 2 powi (k + k)"
    by (simp only: power2_eq_square two_powi_add)
  moreover have "(2::real) powi 1024 \<le> 2 powi (k + k)"
    using assms by (intro iffD2 [OF two_powi_le_iff]) simp
  then have "rnd (2 powi (k + k)) = PInf" by (rule rnd_overflow)
  ultimately show ?thesis by (simp only: distance_finite_x dadd.simps dsqrt.simps)
qed

lemma distance_underflow:
  assumes "- 1074 \<le> k" "k \<le> - 538"
  shows "distance (Fin 0 # r0) (Fin (2 powi k) # Fin y1 # r1) = Some (Fin 0)"
proof -
  have "dsub (Fin (2 powi k)) (Fin 0) = Fin (2 powi k)"
    using rnd_two_powi [of k] assms by simp
  moreover have "((2::real) powi k)\<^sup>2 = 2 powi (k + k)"
    by (simp only: power2_eq_square two_powi_add)
  moreover have "(2::real) powi (k + k) < 2 powi (- 1075)"
    using assms by (intro iffD2 [OF two_powi_less_iff]) simp
  then have "rnd (2 powi (k + k)) = Fin 0" by (intro rnd_underflow) simp
  ultimately have "distance (Fin 0 # r0) (Fin (2 powi k) # Fin y1 # r1)
      = Some (dsqrt (dadd (Fin 0) (Fin 0)))"
    by (simp only: distance_finite_x)
  then show ?thesis by simp
qed




section \<open>The rounding error of the coefficients\<close>

lemma dadd_FinE:
  assumes "dadd x y = Fin z"
  obtains rx ry where "x = Fin rx" "y = Fin ry" "rnd (rx + ry) = Fin z"
  using assms by (cases x; cases y) simp_all

lemma dsub_FinE:
  assumes "dsub x y = Fin z"
  obtains rx ry where "x = Fin rx" "y = Fin ry" "rnd (rx - ry) = Fin z"
  using assms by (cases x; cases y) (simp_all add: dsub_def)

lemma dmul_FinE:
  assumes "dmul x y = Fin z"
  obtains rx ry where "x = Fin rx" "y = Fin ry" "rnd (rx * ry) = Fin z"
  using assms by (cases x; cases y) (simp_all add: signed_inf_def split: if_splits)

lemma rnd_error_abs:
  assumes "rnd x = Fin y"
  shows "\<bar>y - x\<bar> \<le> \<bar>x\<bar> / 9007199254740992 + 2 powi (- 1075)"
proof -
  have "(2::real) powi (- 53) = 1 / 9007199254740992"
    by (simp add: power_int_minus field_simps)
  then show ?thesis using rnd_error [OF assms] by simp
qed

lemma rnd_error_result_abs:
  assumes "rnd x = Fin y"
  shows "\<bar>y - x\<bar> \<le> \<bar>y\<bar> / 9007199254740992 + 2 powi (- 1075)"
proof -
  have "(2::real) powi (- 53) = 1 / 9007199254740992"
    by (simp add: power_int_minus field_simps)
  then show ?thesis using rnd_error_result [OF assms] by simp
qed

lemma error_mono:
  fixes e x y h :: real
  assumes "e \<le> x / 9007199254740992 + h" "x \<le> y"
  shows "e \<le> y / 9007199254740992 + h"
proof -
  have "x / 9007199254740992 \<le> y / 9007199254740992"
    using assms(2) by (rule divide_right_mono) simp
  then show ?thesis using assms(1) by linarith
qed

lemma error_mono2:
  fixes e x y z h :: real
  assumes "e \<le> x / 9007199254740992 + h" "x \<le> y + z"
  shows "e \<le> y / 9007199254740992 + z / 9007199254740992 + h"
  using error_mono [OF assms] by (simp add: add_divide_distrib)

lemma coefficient_sum_error:
  fixes u w q s1 r1 r2 A B C M2 P1 P2 :: real
  assumes u: "rnd (P1 - P2) = Fin u"
    and w: "rnd (2 * u) = Fin w"
    and s1: "rnd (w + C) = Fin s1"
    and A: "rnd (s1 + M2) = Fin A"
    and q: "rnd (- 3 * u) = Fin q"
    and r1: "rnd (q - C) = Fin r1"
    and r2: "rnd (r1 - C) = Fin r2"
    and B: "rnd (r2 - M2) = Fin B"
  shows "\<bar>A + B + C + P1 - P2\<bar>
    \<le> 2 powi (- 49) * (\<bar>P1 - P2\<bar> + \<bar>A\<bar> + \<bar>B\<bar> + \<bar>C\<bar>) + 2 powi (- 1070)"
proof -
  define h :: real where "h = 2 powi (- 1075)"
  define D where "D = \<bar>P1 - P2\<bar>"
  define aC where "aC = \<bar>C\<bar>"
  define aA where "aA = \<bar>A\<bar>"
  define aB where "aB = \<bar>B\<bar>"
  define eu where "eu = \<bar>u - (P1 - P2)\<bar>"
  define ew where "ew = \<bar>w - 2 * u\<bar>"
  define eq where "eq = \<bar>q - (- 3 * u)\<bar>"
  define es where "es = \<bar>s1 - (w + C)\<bar>"
  define e1 where "e1 = \<bar>r1 - (q - C)\<bar>"
  define e2 where "e2 = \<bar>r2 - (r1 - C)\<bar>"
  define eA where "eA = \<bar>A - (s1 + M2)\<bar>"
  define eB where "eB = \<bar>B - (r2 - M2)\<bar>"
  have h: "0 < h" by (simp add: h_def)
  have pos: "0 \<le> D" "0 \<le> aC" "0 \<le> aA" "0 \<le> aB"
    by (simp_all add: D_def aC_def aA_def aB_def)
  have fu: "eu \<le> D / 9007199254740992 + h"
    unfolding eu_def D_def h_def by (rule rnd_error_abs [OF u])
  have gu: "\<bar>u\<bar> \<le> D + eu" unfolding eu_def D_def by linarith
  have fw: "ew \<le> 2 * \<bar>u\<bar> / 9007199254740992 + h"
    using rnd_error_abs [OF w] unfolding ew_def h_def by (simp add: abs_mult)
  have gw: "\<bar>w\<bar> \<le> 2 * \<bar>u\<bar> + ew" unfolding ew_def by linarith
  have fq: "eq \<le> 3 * \<bar>u\<bar> / 9007199254740992 + h"
    using rnd_error_abs [OF q] unfolding eq_def h_def by (simp add: abs_mult)
  have gq: "\<bar>q\<bar> \<le> 3 * \<bar>u\<bar> + eq" unfolding eq_def by linarith
  have "es \<le> \<bar>w + C\<bar> / 9007199254740992 + h"
    unfolding es_def h_def by (rule rnd_error_abs [OF s1])
  moreover have "\<bar>w + C\<bar> \<le> \<bar>w\<bar> + aC" unfolding aC_def by linarith
  ultimately have fs: "es \<le> \<bar>w\<bar> / 9007199254740992 + aC / 9007199254740992 + h"
    by (rule error_mono2)
  have "e1 \<le> \<bar>q - C\<bar> / 9007199254740992 + h"
    unfolding e1_def h_def by (rule rnd_error_abs [OF r1])
  moreover have "\<bar>q - C\<bar> \<le> \<bar>q\<bar> + aC" unfolding aC_def by linarith
  ultimately have f1: "e1 \<le> \<bar>q\<bar> / 9007199254740992 + aC / 9007199254740992 + h"
    by (rule error_mono2)
  have g1: "\<bar>r1\<bar> \<le> \<bar>q\<bar> + aC + e1" unfolding e1_def aC_def by linarith
  have "e2 \<le> \<bar>r1 - C\<bar> / 9007199254740992 + h"
    unfolding e2_def h_def by (rule rnd_error_abs [OF r2])
  moreover have "\<bar>r1 - C\<bar> \<le> \<bar>r1\<bar> + aC" unfolding aC_def by linarith
  ultimately have f2: "e2 \<le> \<bar>r1\<bar> / 9007199254740992 + aC / 9007199254740992 + h"
    by (rule error_mono2)
  have fA: "eA \<le> aA / 9007199254740992 + h"
    unfolding eA_def aA_def h_def by (rule rnd_error_result_abs [OF A])
  have fB: "eB \<le> aB / 9007199254740992 + h"
    unfolding eB_def aB_def h_def by (rule rnd_error_result_abs [OF B])
  have "A + B + C + P1 - P2 = (A - (s1 + M2)) + (B - (r2 - M2)) + (s1 - (w + C))
      + (w - 2 * u) + (r2 - (r1 - C)) + (r1 - (q - C)) + (q - (- 3 * u)) - (u - (P1 - P2))"
    by simp
  then have total: "\<bar>A + B + C + P1 - P2\<bar> \<le> eA + eB + es + ew + e2 + e1 + eq + eu"
    unfolding eA_def eB_def es_def ew_def e2_def e1_def eq_def eu_def by linarith
  define U where "U = \<bar>u\<bar>"
  define W where "W = \<bar>w\<bar>"
  define Q where "Q = \<bar>q\<bar>"
  define R where "R = \<bar>r1\<bar>"
  define T where "T = \<bar>A + B + C + P1 - P2\<bar>"
  note facts = fu gu fw gw fq gq fs f1 g1 f2 fA fB total
  have U: "U \<le> 101 / 100 * D + h"
    using fu gu pos h unfolding U_def [symmetric] by linarith
  have ew: "ew \<le> 203 / 100 * D / 9007199254740992 + 2 * h"
    using fw U pos h unfolding U_def [symmetric] by linarith
  have W: "W \<le> 203 / 100 * D + 4 * h"
    using gw ew U pos h unfolding U_def [symmetric] W_def [symmetric] by linarith
  have eq: "eq \<le> 304 / 100 * D / 9007199254740992 + 2 * h"
    using fq U pos h unfolding U_def [symmetric] by linarith
  have Q: "Q \<le> 304 / 100 * D + 5 * h"
    using gq eq U pos h unfolding U_def [symmetric] Q_def [symmetric] by linarith
  have es: "es \<le> 203 / 100 * D / 9007199254740992 + aC / 9007199254740992 + 2 * h"
    using fs W pos h unfolding W_def [symmetric] by linarith
  have e1: "e1 \<le> 304 / 100 * D / 9007199254740992 + aC / 9007199254740992 + 2 * h"
    using f1 Q pos h unfolding Q_def [symmetric] by linarith
  have R: "R \<le> 305 / 100 * D + 101 / 100 * aC + 7 * h"
    using g1 e1 Q pos h unfolding Q_def [symmetric] R_def [symmetric] by linarith
  have e2: "e2 \<le> 305 / 100 * D / 9007199254740992 + 201 / 100 * aC / 9007199254740992 + 2 * h"
    using f2 R pos h unfolding R_def [symmetric] by linarith
  have "T \<le> 1419 / 100 * D / 9007199254740992 + 401 / 100 * aC / 9007199254740992
      + aA / 9007199254740992 + aB / 9007199254740992 + 14 * h"
    using total fu ew eq es e1 e2 fA fB h unfolding T_def [symmetric] by linarith
  then have "T \<le> 16 / 9007199254740992 * D + 16 / 9007199254740992 * aA
      + 16 / 9007199254740992 * aB + 16 / 9007199254740992 * aC + 32 * h"
    using pos h by linarith
  then have "T \<le> 16 / 9007199254740992 * (D + aA + aB + aC) + 32 * h"
    by (simp only: distrib_left)
  moreover have "(2::real) powi (- 49) = 16 / 9007199254740992"
    by (simp add: power_int_minus field_simps)
  moreover have "(2::real) powi (- 1070) = 32 * h"
  proof -
    have "(2::real) powi (5 + - 1075) = 2 powi 5 * 2 powi (- 1075)" by (rule two_powi_add)
    then show ?thesis by (simp add: h_def del: power_int_numeral)
  qed
  ultimately show ?thesis
    unfolding T_def D_def aA_def aB_def aC_def by (simp only:)
qed

lemma at'_eq_Some: "at' xs i = Some y \<longleftrightarrow> i < length xs \<and> y = xs ! i"
  by (auto simp: at'_def)

lemma calcCoefficients_SomeD:
  assumes "calcCoefficients alpha tension p0 p1 p2 p3 = Some seg"
  shows "\<exists>m1x m1y m2x m2y.
      a seg = [dadd (dadd (dmul (Fin 2) (dsub (p1 ! 0) (p2 ! 0))) m1x) m2x,
               dadd (dadd (dmul (Fin 2) (dsub (p1 ! 1) (p2 ! 1))) m1y) m2y]
    \<and> b seg = [dsub (dsub (dsub (dmul (Fin (- 3)) (dsub (p1 ! 0) (p2 ! 0))) m1x) m1x) m2x,
               dsub (dsub (dsub (dmul (Fin (- 3)) (dsub (p1 ! 1) (p2 ! 1))) m1y) m1y) m2y]
    \<and> c seg = [m1x, m1y]
    \<and> d seg = [p1 ! 0, p1 ! 1]"
  using assms unfolding calcCoefficients_def
  apply (clarsimp simp: bind_eq_Some_conv at'_eq_Some Let_def)
  apply (intro exI conjI; rule refl)
  done

lemma coefficients_sum_dbl:
  assumes a: "dadd (dadd (dmul (Fin 2) (dsub (Fin P1) (Fin P2))) m1) m2 = Fin A"
    and b: "dsub (dsub (dsub (dmul (Fin (- 3)) (dsub (Fin P1) (Fin P2))) m1) m1) m2 = Fin B"
    and c: "m1 = Fin C"
  shows "\<bar>A + B + C + P1 - P2\<bar>
    \<le> 2 powi (- 49) * (\<bar>P1 - P2\<bar> + \<bar>A\<bar> + \<bar>B\<bar> + \<bar>C\<bar>) + 2 powi (- 1070)"
proof -
  from a obtain s1 M2 where s1: "dadd (dmul (Fin 2) (dsub (Fin P1) (Fin P2))) m1 = Fin s1"
    and m2: "m2 = Fin M2" and A: "rnd (s1 + M2) = Fin A"
    by (rule dadd_FinE)
  from s1 obtain w C' where w: "dmul (Fin 2) (dsub (Fin P1) (Fin P2)) = Fin w"
    and "m1 = Fin C'" and "rnd (w + C') = Fin s1"
    by (rule dadd_FinE)
  with c have s1': "rnd (w + C) = Fin s1" by simp
  from w obtain k u where "Fin 2 = Fin k" and u: "dsub (Fin P1) (Fin P2) = Fin u"
    and "rnd (k * u) = Fin w"
    by (rule dmul_FinE)
  then have w': "rnd (2 * u) = Fin w" by simp
  from u have u': "rnd (P1 - P2) = Fin u" by simp
  from b obtain r2 M2' where r2: "dsub (dsub (dmul (Fin (- 3)) (dsub (Fin P1) (Fin P2))) m1) m1 = Fin r2"
    and "m2 = Fin M2'" and "rnd (r2 - M2') = Fin B"
    by (rule dsub_FinE)
  with m2 have B: "rnd (r2 - M2) = Fin B" by simp
  from r2 obtain r1 C'' where r1: "dsub (dmul (Fin (- 3)) (dsub (Fin P1) (Fin P2))) m1 = Fin r1"
    and "m1 = Fin C''" and "rnd (r1 - C'') = Fin r2"
    by (rule dsub_FinE)
  with c have r2': "rnd (r1 - C) = Fin r2" by simp
  from r1 obtain q C''' where q: "dmul (Fin (- 3)) (dsub (Fin P1) (Fin P2)) = Fin q"
    and "m1 = Fin C'''" and "rnd (q - C''') = Fin r1"
    by (rule dsub_FinE)
  with c have r1': "rnd (q - C) = Fin r1" by simp
  from q u have "dmul (Fin (- 3)) (Fin u) = Fin q" by (simp only:)
  then have q': "rnd (- 3 * u) = Fin q" by simp
  show ?thesis
    by (rule coefficient_sum_error [OF u' w' s1' A q' r1' r2' B])
qed

section \<open>Two segments that miss their end point\<close>

lemma rnd_tie_example: "rnd (- 13510798882111485) = Fin (- 13510798882111484)"
proof -
  have "(2::real) powi (52 + 1) = 9007199254740992" "(2::real) powi (53 + 1) = 18014398509481984"
    by simp_all
  then have lo: "2 powi (52 + 1) \<le> \<bar>- 13510798882111485 :: real\<bar>"
    and hi: "\<bar>- 13510798882111485 :: real\<bar> < 2 powi (53 + 1)"
    by (simp_all only:)
  have r: "round_even (- 13510798882111485 / 2 powi 1) = - 6755399441055742"
    by (simp add: round_even_def Let_def)
  have "(2::real) powi 54 < 2 powi 1024"
    by (intro iffD2 [OF two_powi_less_iff]) simp
  moreover have "(2::real) powi 54 = 18014398509481984" by simp
  ultimately have fin: "\<bar>real_of_int (round_even (- 13510798882111485 / 2 powi 1)) * 2 powi 1\<bar>
      < 2 powi 1024"
    unfolding r by (simp del: power_int_numeral)
  from rnd_normal_eval [OF lo hi _ fin] show ?thesis
    unfolding r by simp
qed

lemma rnd_even_example [simp]: "rnd (- 13510798882111484) = Fin (- 13510798882111484)"
proof -
  have "is_double (real_of_int (- 6755399441055742) * 2 powi 1)"
    by (intro is_double_scaled) simp_all
  then show ?thesis using rnd_double by simp
qed

lemma rounding_segment:
  "calcCoefficients (Fin 0.75) (Fin 0) [Fin 0, Fin 1] [Fin 1, Fin 4503599627370496]
      [Fin 2, Fin 1] [Fin 3, Fin 4503599627370496]
     = Some \<lparr>a = [Fin 0, Fin 9007199254740990], b = [Fin 0, Fin (- 13510798882111484)],
         c = [Fin 1, Fin 0], d = [Fin 1, Fin 4503599627370496]\<rparr>"
  by (simp add: calcCoefficients_def knotSpacing_def distance_Fin Let_def rnd_tie_example)

lemma rounding_segment_at_1:
  "samplePoint \<lparr>a = [Fin 0, Fin 9007199254740990], b = [Fin 0, Fin (- 13510798882111484)],
         c = [Fin 1, Fin 0], d = [Fin 1, Fin 4503599627370496]\<rparr> (Fin 1)
     = Some [Fin 2, Fin 2]"
  by (simp add: samplePoint_def cubicAt_def)

lemma negative_exponent_spacings:
  "knotSpacing (Fin (- 1)) [Fin 0, Fin 0] [Fin 1, Fin 0] = Some (Fin 1)"
  "knotSpacing (Fin (- 1)) [Fin 1, Fin 0] [Fin 1, Fin 1] = Some PInf"
  "knotSpacing (Fin (- 1)) [Fin 1, Fin 1] [Fin 2, Fin 1] = Some (Fin 1)"
  by (simp_all add: knotSpacing_def distance_Fin dpow_def)

lemma negative_exponent_segment:
  "calcCoefficients (Fin (- 1)) (Fin 0) [Fin 0, Fin 0] [Fin 1, Fin 0] [Fin 1, Fin 1] [Fin 2, Fin 1]
     = Some \<lparr>a = [PInf, NaN], b = [NInf, NaN], c = [PInf, NaN], d = [Fin 1, Fin 0]\<rparr>"
  by (simp add: calcCoefficients_def negative_exponent_spacings Let_def signed_inf_def dsub_def)

lemma cubicAt_0:
  assumes "ca ! i = Fin A" "cb ! i = Fin B" "cc ! i = Fin C" "cd ! i = Fin P"
    and "i < length ca" "i < length cb" "i < length cc" "i < length cd"
  shows "cubicAt ca cb cc cd i (Fin 0) = Some (rnd P)"
  using assms by (simp add: cubicAt_def at'_def dpow_def)

lemma coordinate_end_points:
  assumes "calcCoefficients alpha tension p0 p1 p2 p3 = Some seg"
    and "i < 2"
    and "p1 ! i = Fin P1" and "p2 ! i = Fin P2"
    and "a seg ! i = Fin A" and "b seg ! i = Fin B" and "c seg ! i = Fin C"
  shows "d seg = [p1 ! 0, p1 ! 1]
    \<and> \<bar>A + B + C + P1 - P2\<bar>
        \<le> 2 powi (- 49) * (\<bar>P1 - P2\<bar> + \<bar>A\<bar> + \<bar>B\<bar> + \<bar>C\<bar>) + 2 powi (- 1070)
    \<and> (is_double P1 \<longrightarrow>
        cubicAt (a seg) (b seg) (c seg) (d seg) i (Fin 0) = Some (Fin P1))"
proof -
  from calcCoefficients_SomeD [OF assms(1)] obtain m1x m1y m2x m2y where
    a: "a seg = [dadd (dadd (dmul (Fin 2) (dsub (p1 ! 0) (p2 ! 0))) m1x) m2x,
               dadd (dadd (dmul (Fin 2) (dsub (p1 ! 1) (p2 ! 1))) m1y) m2y]"
    and b: "b seg = [dsub (dsub (dsub (dmul (Fin (- 3)) (dsub (p1 ! 0) (p2 ! 0))) m1x) m1x) m2x,
               dsub (dsub (dsub (dmul (Fin (- 3)) (dsub (p1 ! 1) (p2 ! 1))) m1y) m1y) m2y]"
    and c: "c seg = [m1x, m1y]"
    and d: "d seg = [p1 ! 0, p1 ! 1]"
    by blast
  from assms(2) have i: "i = 0 \<or> i = 1" by auto
  have len: "i < length (a seg)" "i < length (b seg)" "i < length (c seg)" "i < length (d seg)"
    using assms(2) by (simp_all add: a b c d)
  have di: "d seg ! i = Fin P1"
    using i assms(3) by (auto simp: d)
  have bound: "\<bar>A + B + C + P1 - P2\<bar>
        \<le> 2 powi (- 49) * (\<bar>P1 - P2\<bar> + \<bar>A\<bar> + \<bar>B\<bar> + \<bar>C\<bar>) + 2 powi (- 1070)"
    using i
  proof
    assume i0: "i = 0"
    show ?thesis
    proof (rule coefficients_sum_dbl)
      show "dadd (dadd (dmul (Fin 2) (dsub (Fin P1) (Fin P2))) m1x) m2x = Fin A"
        using assms(3-5) unfolding i0 a by (simp del: dsub_Fin)
      show "dsub (dsub (dsub (dmul (Fin (- 3)) (dsub (Fin P1) (Fin P2))) m1x) m1x) m2x = Fin B"
        using assms(3,4,6) unfolding i0 b by (simp del: dsub_Fin)
      show "m1x = Fin C"
        using assms(7) unfolding i0 c by simp
    qed
  next
    assume i1: "i = 1"
    show ?thesis
    proof (rule coefficients_sum_dbl)
      show "dadd (dadd (dmul (Fin 2) (dsub (Fin P1) (Fin P2))) m1y) m2y = Fin A"
        using assms(3-5) unfolding i1 a by (simp del: dsub_Fin)
      show "dsub (dsub (dsub (dmul (Fin (- 3)) (dsub (Fin P1) (Fin P2))) m1y) m1y) m2y = Fin B"
        using assms(3,4,6) unfolding i1 b by (simp del: dsub_Fin)
      show "m1y = Fin C"
        using assms(7) unfolding i1 c by simp
    qed
  qed
  have "cubicAt (a seg) (b seg) (c seg) (d seg) i (Fin 0) = Some (rnd P1)"
    using assms(5-7) di len by (rule cubicAt_0)
  then have "is_double P1 \<longrightarrow>
        cubicAt (a seg) (b seg) (c seg) (d seg) i (Fin 0) = Some (Fin P1)"
    by (simp add: rnd_double)
  with d bound show ?thesis by blast
qed




section \<open>The counter and the arithmetic\<close>

lemma rnd_normal_value:
  assumes lo: "2 powi (52 + e) \<le> \<bar>x\<bar>" and hi: "\<bar>x\<bar> < 2 powi (53 + e)"
    and e: "- 1074 \<le> e" "e \<le> 970"
    and M: "round_even (x / 2 powi e) = M"
  shows "rnd x = Fin (real_of_int M * 2 powi e)"
proof -
  have "\<bar>x\<bar> / 2 powi e < 2 powi (53 + e) / 2 powi e"
    using hi by (intro divide_strict_right_mono) simp_all
  also have "(2::real) powi (53 + e) / 2 powi e = real_of_int (2 ^ 53)"
    unfolding two_powi_add by simp
  finally have z: "\<bar>x / 2 powi e\<bar> < real_of_int (2 ^ 53)"
    by (simp only: abs_scaled)
  then have "x / 2 powi e \<le> real_of_int (2 ^ 53)" "real_of_int (- (2 ^ 53)) \<le> x / 2 powi e"
    unfolding abs_less_iff of_int_minus by linarith+
  then have "M \<le> 2 ^ 53" "- (2 ^ 53) \<le> M"
    unfolding M [symmetric] by (simp_all only: round_even_le round_even_ge)
  then have "\<bar>real_of_int M\<bar> \<le> real_of_int (2 ^ 53)"
    by (simp only: of_int_abs [symmetric] of_int_le_iff)
  then have "\<bar>real_of_int M\<bar> * 2 powi e \<le> 2 powi 53 * 2 powi e"
    by (intro mult_right_mono) simp_all
  moreover have "(2::real) powi (53 + e) < 2 powi 1024"
    using e by (intro iffD2 [OF two_powi_less_iff]) simp
  ultimately have "\<bar>real_of_int M * 2 powi e\<bar> < 2 powi 1024"
    unfolding two_powi_add by (simp only: abs_mult abs_of_pos [OF two_powi_pos])
  then show ?thesis
    using rnd_normal_eval [OF lo hi e(1)] by (simp only: M)
qed

text \<open>
  The counter's additions are those of the arithmetic above: at each of the ten values of
  the counter, its sum with \<open>0.1\<close> in the counter's model is the sum that \<open>dadd\<close>
  gives.
\<close>

lemma counter_add_is_dadd:
  "dadd (Fin (fp_val (Fp 7205759403792794 (- 56)))) (Fin (fp_val fp_tenth))
     = Fin (fp_val (fp_add (Fp 7205759403792794 (- 56)) fp_tenth))"
  "dadd (Fin (fp_val (Fp 7205759403792794 (- 55)))) (Fin (fp_val fp_tenth))
     = Fin (fp_val (fp_add (Fp 7205759403792794 (- 55)) fp_tenth))"
  "dadd (Fin (fp_val (Fp 5404319552844596 (- 54)))) (Fin (fp_val fp_tenth))
     = Fin (fp_val (fp_add (Fp 5404319552844596 (- 54)) fp_tenth))"
  "dadd (Fin (fp_val (Fp 7205759403792794 (- 54)))) (Fin (fp_val fp_tenth))
     = Fin (fp_val (fp_add (Fp 7205759403792794 (- 54)) fp_tenth))"
  "dadd (Fin (fp_val (Fp 4503599627370496 (- 53)))) (Fin (fp_val fp_tenth))
     = Fin (fp_val (fp_add (Fp 4503599627370496 (- 53)) fp_tenth))"
  "dadd (Fin (fp_val (Fp 5404319552844595 (- 53)))) (Fin (fp_val fp_tenth))
     = Fin (fp_val (fp_add (Fp 5404319552844595 (- 53)) fp_tenth))"
  "dadd (Fin (fp_val (Fp 6305039478318694 (- 53)))) (Fin (fp_val fp_tenth))
     = Fin (fp_val (fp_add (Fp 6305039478318694 (- 53)) fp_tenth))"
  "dadd (Fin (fp_val (Fp 7205759403792793 (- 53)))) (Fin (fp_val fp_tenth))
     = Fin (fp_val (fp_add (Fp 7205759403792793 (- 53)) fp_tenth))"
  "dadd (Fin (fp_val (Fp 8106479329266892 (- 53)))) (Fin (fp_val fp_tenth))
     = Fin (fp_val (fp_add (Fp 8106479329266892 (- 53)) fp_tenth))"
  "dadd (Fin (fp_val (Fp 9007199254740991 (- 53)))) (Fin (fp_val fp_tenth))
     = Fin (fp_val (fp_add (Fp 9007199254740991 (- 53)) fp_tenth))"
  using rnd_normal_value [of "- 55" "3602879701896397 / 36028797018963968 + 3602879701896397 / 36028797018963968" 7205759403792794]
    rnd_normal_value [of "- 54" "3602879701896397 / 18014398509481984 + 3602879701896397 / 36028797018963968" 5404319552844596]
    rnd_normal_value [of "- 54" "1351079888211149 / 4503599627370496 + 3602879701896397 / 36028797018963968" 7205759403792794]
    rnd_normal_value [of "- 53" "3602879701896397 / 9007199254740992 + 3602879701896397 / 36028797018963968" 4503599627370496]
    rnd_normal_value [of "- 53" "1 / 2 + 3602879701896397 / 36028797018963968" 5404319552844595]
    rnd_normal_value [of "- 53" "5404319552844595 / 9007199254740992 + 3602879701896397 / 36028797018963968" 6305039478318694]
    rnd_normal_value [of "- 53" "3152519739159347 / 4503599627370496 + 3602879701896397 / 36028797018963968" 7205759403792793]
    rnd_normal_value [of "- 53" "7205759403792793 / 9007199254740992 + 3602879701896397 / 36028797018963968" 8106479329266892]
    rnd_normal_value [of "- 53" "2026619832316723 / 2251799813685248 + 3602879701896397 / 36028797018963968" 9007199254740991]
    rnd_normal_value [of "- 52" "9007199254740991 / 9007199254740992 + 3602879701896397 / 36028797018963968" 4953959590107545]
  unfolding fp_counter_steps
  by (simp_all add: fp_tenth_def power_int_minus round_even_def Let_def)

end
